theory Spec2Isabelle
  imports Main
begin

section \<open>Data model (types.ts)\<close>

text \<open>
  Strings are \<open>char list\<close>; a \<open>char\<close> stands for one code unit below 256.
  The numeric fields of a hunk are the results of \<open>parseInt\<close> on digit runs or of
  counting loops: non-negative integers, exact in the source as long as they stay below
  \<open>2^53\<close>, and natural numbers here.  A field whose source name is an Isar keyword
  or a constant of Main carries a prime (\<open>id'\<close>, \<open>file'\<close>, \<open>context'\<close>,
  \<open>note'\<close>); fields of different records that share a name in the source are told
  apart by a prefix.
\<close>

datatype LineType = Context | Add | Remove

record DiffLine =
  type :: LineType
  content :: string

record Hunk =
  id' :: string
  file' :: string
  index :: nat
  header :: string
  oldStart :: nat
  oldCount :: nat
  newStart :: nat
  newCount :: nat
  lines :: "DiffLine list"
  context' :: "string option"

record FileDiff =
  oldPath :: string
  newPath :: string
  isNew :: bool
  isDeleted :: bool
  isRenamed :: bool
  hunks :: "Hunk list"

text \<open>A ParsedDiff is its list of files; the helper methods are the free functions below.\<close>

type_synonym ParsedDiff = "FileDiff list"

definition getAllHunks :: "ParsedDiff \<Rightarrow> Hunk list" where
  "getAllHunks files = concat (map hunks files)"

fun getHunk :: "ParsedDiff \<Rightarrow> string \<Rightarrow> Hunk option" where
  "getHunk [] i = None"
| "getHunk (f # fs) i =
     (case find (\<lambda>h. id' h = i) (hunks f) of
        Some h \<Rightarrow> Some h
      | None \<Rightarrow> getHunk fs i)"

definition getFileHunks :: "ParsedDiff \<Rightarrow> string \<Rightarrow> Hunk list" where
  "getFileHunks files filePath =
     (case find (\<lambda>f. newPath f = filePath \<or> oldPath f = filePath) files of
        Some f \<Rightarrow> hunks f
      | None \<Rightarrow> [])"

section \<open>Text helpers\<close>

text \<open>\<open>String(n)\<close> for a non-negative integer: its decimal digits.\<close>

definition digit_char :: "nat \<Rightarrow> char" where
  "digit_char d = char_of (48 + d)"

fun show_nat :: "nat \<Rightarrow> string" where
  "show_nat n = (if n < 10 then [digit_char n] else show_nat (n div 10) @ [digit_char (n mod 10)])"

declare show_nat.simps [simp del]

text \<open>\<open>parts.join(sep)\<close>\<close>

fun join :: "string \<Rightarrow> string list \<Rightarrow> string" where
  "join sep [] = []"
| "join sep [x] = x"
| "join sep (x # y # ys) = x @ sep @ join sep (y # ys)"

text \<open>\<open>s.split('\n')\<close>: always at least one piece.\<close>

fun split_nl :: "string \<Rightarrow> string list" where
  "split_nl [] = [[]]"
| "split_nl (c # cs) =
     (if c = CHR 0x0A then [] # split_nl cs
      else (case split_nl cs of [] \<Rightarrow> [[c]] | l # ls \<Rightarrow> (c # l) # ls))"

definition startsWith :: "string \<Rightarrow> string \<Rightarrow> bool" where
  "startsWith s p = (take (length p) s = p)"

section \<open>Hunk manipulator (manipulator.ts)\<close>

subsection \<open>isSplittable\<close>

text \<open>
  The \<open>for\<close> loop of \<open>isSplittable\<close> with its two counters; \<open>break\<close> with
  \<open>foundGap = true\<close> is the result \<open>True\<close>, running off the end is \<open>False\<close>.
\<close>

fun isSplittable_loop :: "nat \<Rightarrow> bool \<Rightarrow> nat \<Rightarrow> DiffLine list \<Rightarrow> bool" where
  "isSplittable_loop g inChangeGroup contextCount [] = False"
| "isSplittable_loop g inChangeGroup contextCount (l # ls) =
     (if type l = Context then
        (if inChangeGroup then
           (if contextCount + 1 \<ge> g
            then isSplittable_loop g False (contextCount + 1) ls
            else isSplittable_loop g True (contextCount + 1) ls)
         else isSplittable_loop g inChangeGroup contextCount ls)
      else
        (if \<not> inChangeGroup \<and> contextCount \<ge> g \<and> contextCount > 0 then True
         else isSplittable_loop g True 0 ls))"

definition isSplittable :: "Hunk \<Rightarrow> nat \<Rightarrow> bool" where
  "isSplittable hunk minContextGap = isSplittable_loop minContextGap False 0 (lines hunk)"

subsection \<open>splitHunk\<close>

text \<open>
  First loop of \<open>splitHunk\<close>: the state is \<open>groups\<close>, \<open>currentGroup\<close>,
  \<open>contextBuffer\<close>, \<open>inChangeGroup\<close>.  Closing a group at a gap leaves
  \<open>contextBuffer\<close> as it is; only a change line empties it.
\<close>

fun split_groups ::
  "nat \<Rightarrow> DiffLine list list \<Rightarrow> DiffLine list \<Rightarrow> DiffLine list \<Rightarrow> bool \<Rightarrow> DiffLine list
   \<Rightarrow> DiffLine list list" where
  "split_groups g groups currentGroup contextBuffer inChangeGroup [] =
     (if length currentGroup > 0 then groups @ [currentGroup @ contextBuffer] else groups)"
| "split_groups g groups currentGroup contextBuffer inChangeGroup (l # ls) =
     (if type l = Context then
        (let contextBuffer' = contextBuffer @ [l] in
         if inChangeGroup \<and> length contextBuffer' \<ge> g then
           (let trailingContext = take (min g (length contextBuffer')) contextBuffer' in
            split_groups g (groups @ [currentGroup @ trailingContext])
              (drop (min g (length contextBuffer')) contextBuffer') contextBuffer' False ls)
         else split_groups g groups currentGroup contextBuffer' inChangeGroup ls)
      else
        (let currentGroup' =
               (if \<not> inChangeGroup \<and> length currentGroup = 0 then contextBuffer
                else currentGroup @ contextBuffer)
         in split_groups g groups (currentGroup' @ [l]) [] True ls))"

text \<open>The counting loops shared by \<open>splitHunk\<close>, \<open>recalculateHeader\<close> and \<open>editHunk\<close>.\<close>

fun count_old :: "DiffLine list \<Rightarrow> nat" where
  "count_old [] = 0"
| "count_old (l # ls) =
     (if type l = Context then 1 + count_old ls
      else if type l = Remove then 1 + count_old ls
      else count_old ls)"

fun count_new :: "DiffLine list \<Rightarrow> nat" where
  "count_new [] = 0"
| "count_new (l # ls) =
     (if type l = Context then 1 + count_new ls
      else if type l = Remove then count_new ls
      else 1 + count_new ls)"

definition context_suffix :: "string option \<Rightarrow> string" where
  "context_suffix c = (case c of None \<Rightarrow> [] | Some s \<Rightarrow> (if s = [] then [] else '' '' @ s))"

definition header_text :: "nat \<Rightarrow> nat \<Rightarrow> nat \<Rightarrow> nat \<Rightarrow> string option \<Rightarrow> string" where
  "header_text os oc ns nc c =
     ''@@ -'' @ show_nat os @ '','' @ show_nat oc @ '' +'' @ show_nat ns @ '','' @ show_nat nc
       @ '' @@'' @ context_suffix c"

text \<open>Second loop of \<open>splitHunk\<close>: one sub-hunk per group, the line counters running on.\<close>

fun split_build :: "Hunk \<Rightarrow> nat \<Rightarrow> nat \<Rightarrow> nat \<Rightarrow> DiffLine list list \<Rightarrow> Hunk list" where
  "split_build hunk oldLine newLine groupIndex [] = []"
| "split_build hunk oldLine newLine groupIndex (grp # rest) =
     \<lparr> id' = file' hunk @ '':'' @ show_nat (index hunk) @ ''.'' @ show_nat groupIndex,
       file' = file' hunk,
       index = index hunk,
       header = header_text oldLine (count_old grp) newLine (count_new grp) (context' hunk),
       oldStart = oldLine,
       oldCount = count_old grp,
       newStart = newLine,
       newCount = count_new grp,
       lines = grp,
       context' = context' hunk \<rparr>
     # split_build hunk
         (oldLine + length (filter (\<lambda>l. type l \<noteq> Add) grp))
         (newLine + length (filter (\<lambda>l. type l \<noteq> Remove) grp))
         (groupIndex + 1) rest"

definition splitHunk :: "Hunk \<Rightarrow> nat \<Rightarrow> Hunk list" where
  "splitHunk hunk minContextGap =
     (if \<not> isSplittable hunk minContextGap then [hunk]
      else split_build hunk (oldStart hunk) (newStart hunk) 0
             (split_groups minContextGap [] [] [] False (lines hunk)))"

subsection \<open>recalculateHeader and editHunk\<close>

definition recalculateHeader :: "Hunk \<Rightarrow> string" where
  "recalculateHeader hunk =
     header_text (oldStart hunk) (count_old (lines hunk)) (newStart hunk) (count_new (lines hunk))
       (context' hunk)"

record Modifications =
  removeAdditions :: "nat list option"
  keepRemovals :: "nat list option"

definition or_empty :: "nat list option \<Rightarrow> nat list" where
  "or_empty xs = (case xs of None \<Rightarrow> [] | Some ys \<Rightarrow> ys)"

text \<open>The indexed walk of \<open>editHunk\<close> over \<open>hunk.lines\<close>, \<open>i\<close> being the position.\<close>

fun edit_lines :: "nat list \<Rightarrow> nat list \<Rightarrow> nat \<Rightarrow> DiffLine list \<Rightarrow> DiffLine list" where
  "edit_lines removeAddSet keepRemovalSet i [] = []"
| "edit_lines removeAddSet keepRemovalSet i (line # rest) =
     (if type line = Add then
        (if i \<notin> set removeAddSet then line # edit_lines removeAddSet keepRemovalSet (i + 1) rest
         else edit_lines removeAddSet keepRemovalSet (i + 1) rest)
      else if type line = Remove then
        (if i \<in> set keepRemovalSet
         then \<lparr>type = Context, content = content line\<rparr>
                # edit_lines removeAddSet keepRemovalSet (i + 1) rest
         else line # edit_lines removeAddSet keepRemovalSet (i + 1) rest)
      else line # edit_lines removeAddSet keepRemovalSet (i + 1) rest)"

definition editHunk :: "Hunk \<Rightarrow> Modifications \<Rightarrow> Hunk" where
  "editHunk hunk modifications =
     (let newLines = edit_lines (or_empty (removeAdditions modifications))
                       (or_empty (keepRemovals modifications)) 0 (lines hunk);
          editedHunk = hunk\<lparr>lines := newLines, oldCount := count_old newLines,
                            newCount := count_new newLines\<rparr>
      in editedHunk\<lparr>header := recalculateHeader editedHunk\<rparr>)"

subsection \<open>generatePatch\<close>

text \<open>
  \<open>byFile\<close> is a JavaScript \<open>Map\<close>: keys stay in the order of their first insertion,
  so it is an association list.  \<open>byFile.get(f) || []\<close> followed by \<open>push\<close> and
  \<open>set\<close> appends to the entry of \<open>f\<close> or adds a new last entry.
\<close>

fun byFile_add :: "Hunk \<Rightarrow> (string \<times> Hunk list) list \<Rightarrow> (string \<times> Hunk list) list" where
  "byFile_add h [] = [(file' h, [h])]"
| "byFile_add h ((k, hs) # m) =
     (if k = file' h then (k, hs @ [h]) # m else (k, hs) # byFile_add h m)"

definition byFile :: "Hunk list \<Rightarrow> (string \<times> Hunk list) list" where
  "byFile hs = foldl (\<lambda>m h. byFile_add h m) [] hs"

definition line_prefix :: "LineType \<Rightarrow> char" where
  "line_prefix t = (if t = Context then CHR '' '' else if t = Add then CHR ''+'' else CHR ''-'')"

definition line_text :: "DiffLine \<Rightarrow> string" where
  "line_text l = line_prefix (type l) # content l"

definition hunk_sections :: "Hunk \<Rightarrow> string list" where
  "hunk_sections h = header h # map line_text (lines h)"

text \<open>
  \<open>[...fileHunks].sort((a, b) => a.oldStart - b.oldStart)\<close> is a stable sort on
  \<open>oldStart\<close>, which \<open>sort_key\<close> is too.
\<close>

definition file_sections :: "string \<times> Hunk list \<Rightarrow> string list" where
  "file_sections e =
     (case e of (f, fileHunks) \<Rightarrow>
        [''diff --git a/'' @ f @ '' b/'' @ f, ''--- a/'' @ f, ''+++ b/'' @ f]
        @ concat (map hunk_sections (sort_key oldStart fileHunks)))"

definition generatePatch :: "Hunk list \<Rightarrow> string" where
  "generatePatch hs =
     (if length hs = 0 then []
      else join [CHR 0x0A] (concat (map file_sections (byFile hs))) @ [CHR 0x0A])"

section \<open>LLM interface (llm-interface.ts)\<close>

record IndexedLine =
  lineIndex' :: nat
  lineType :: LineType
  lineContent :: string
  oldLineNo :: "nat option"
  newLineNo :: "nat option"

record LLMHunk =
  llmId :: string
  llmFile :: string
  llmContext :: "string option"
  splittable :: bool
  splitCount :: "nat option"
  summary :: string
  llmLines :: "IndexedLine list"
  addedLineIndices :: "nat list"
  removedLineIndices :: "nat list"
  complexityHint :: nat

text \<open>The \<open>forEach\<close> of \<open>hunkToLLMHunk\<close>, threading \<open>oldLine\<close> and \<open>newLine\<close>.\<close>

fun index_lines :: "nat \<Rightarrow> nat \<Rightarrow> nat \<Rightarrow> DiffLine list \<Rightarrow> IndexedLine list" where
  "index_lines i oldLine newLine [] = []"
| "index_lines i oldLine newLine (l # ls) =
     (if type l = Context then
        \<lparr>lineIndex' = i, lineType = type l, lineContent = content l,
          oldLineNo = Some oldLine, newLineNo = Some newLine\<rparr>
        # index_lines (i + 1) (oldLine + 1) (newLine + 1) ls
      else if type l = Remove then
        \<lparr>lineIndex' = i, lineType = type l, lineContent = content l,
          oldLineNo = Some oldLine, newLineNo = None\<rparr>
        # index_lines (i + 1) (oldLine + 1) newLine ls
      else
        \<lparr>lineIndex' = i, lineType = type l, lineContent = content l,
          oldLineNo = None, newLineNo = Some newLine\<rparr>
        # index_lines (i + 1) oldLine (newLine + 1) ls)"

definition indices_of :: "LineType \<Rightarrow> DiffLine list \<Rightarrow> nat list" where
  "indices_of t ls = map fst (filter (\<lambda>x. type (snd x) = t) (enumerate 0 ls))"

definition summarizeChanges :: "Hunk \<Rightarrow> string" where
  "summarizeChanges hunk =
     (let adds = filter (\<lambda>l. type l = Add) (lines hunk);
          removes = filter (\<lambda>l. type l = Remove) (lines hunk)
      in if length adds = 0 \<and> length removes = 0 then ''no changes''
         else join '', ''
                ((if length adds > 0 then [''+'' @ show_nat (length adds) @ '' lines''] else [])
                 @ (if length removes > 0 then [''-'' @ show_nat (length removes) @ '' lines'']
                    else [])))"

definition hunkToLLMHunk :: "Hunk \<Rightarrow> LLMHunk" where
  "hunkToLLMHunk hunk =
     (let addedIdx = indices_of Add (lines hunk);
          removedIdx = indices_of Remove (lines hunk);
          spl = isSplittable hunk 1;
          hint0 = (if length addedIdx > 1 \<or> length removedIdx > 1 then 4 else 1);
          hint = (if spl then min hint0 3 else hint0)
      in \<lparr> llmId = id' hunk,
           llmFile = file' hunk,
           llmContext = context' hunk,
           splittable = spl,
           splitCount = (if spl then Some (length (splitHunk hunk 1)) else None),
           summary = summarizeChanges hunk,
           llmLines = index_lines 0 (oldStart hunk) (newStart hunk) (lines hunk),
           addedLineIndices = addedIdx,
           removedLineIndices = removedIdx,
           complexityHint = hint \<rparr>)"

section \<open>Staging plans and their executor (interactive.ts)\<close>

datatype SelectionMode = ModeAll | ModeNone | ModePartial

record LineEdit =
  lineIndex :: nat
  newContent :: string

record HunkSelection =
  hunkId :: string
  mode :: SelectionMode
  includeAdditions :: "nat list option"
  includeRemovals :: "nat list option"
  lineEdits :: "LineEdit list option"
  note' :: "string option"

text \<open>
  The version-control collaborator.  \<open>checkPatch\<close> and \<open>applyPatchToIndex\<close> run an
  external process on the staging index: each is a function of the patch text and the
  state of the index, giving \<open>None\<close> for acceptance or \<open>Some\<close> of the tool's error
  text, and the state after the call.
\<close>

record 'v VCS =
  checkPatch :: "string \<Rightarrow> 'v \<Rightarrow> string option \<times> 'v"
  applyPatchToIndex :: "string \<Rightarrow> 'v \<Rightarrow> string option \<times> 'v"

record ExecResult =
  success :: bool
  error :: "string option"
  stagedHunks :: "string list"

definition has_lineEdits :: "HunkSelection \<Rightarrow> bool" where
  "has_lineEdits sel = (case lineEdits sel of None \<Rightarrow> False | Some es \<Rightarrow> length es > 0)"

text \<open>The patch text that \<open>executeStagingPlan\<close> builds for a resolved selection.\<close>

definition selection_hunk :: "Hunk \<Rightarrow> HunkSelection \<Rightarrow> Hunk" where
  "selection_hunk hunk sel =
     (if mode sel = ModeAll \<and> \<not> has_lineEdits sel then hunk
      else
        (let addIndices = indices_of Add (lines hunk);
             removeIndices = indices_of Remove (lines hunk);
             includeAddSet = (if mode sel = ModeAll then addIndices
                              else or_empty (includeAdditions sel));
             removeAdds = filter (\<lambda>i. i \<notin> set includeAddSet) addIndices;
             includeRemoveSet = (if mode sel = ModeAll then removeIndices
                                 else or_empty (includeRemovals sel));
             keepRems = filter (\<lambda>i. i \<notin> set includeRemoveSet) removeIndices
         in editHunk hunk \<lparr>removeAdditions = Some removeAdds, keepRemovals = Some keepRems\<rparr>))"

definition selection_patch :: "Hunk \<Rightarrow> HunkSelection \<Rightarrow> string" where
  "selection_patch hunk sel = generatePatch [selection_hunk hunk sel]"

definition failed :: "string \<Rightarrow> string list \<Rightarrow> ExecResult" where
  "failed msg staged = \<lparr>success = False, error = Some msg, stagedHunks = staged\<rparr>"

text \<open>
  The \<open>for\<close> loop of \<open>executeStagingPlan\<close>: the remaining selections, the
  \<open>stagedHunks\<close> so far and the state of the index.  Every \<open>return\<close> inside the loop
  ends the recursion.
\<close>

fun exec_loop ::
  "'v VCS \<Rightarrow> ParsedDiff \<Rightarrow> HunkSelection list \<Rightarrow> string list \<Rightarrow> 'v \<Rightarrow> ExecResult \<times> 'v" where
  "exec_loop vcs diff [] staged st = (\<lparr>success = True, error = None, stagedHunks = staged\<rparr>, st)"
| "exec_loop vcs diff (selection # rest) staged st =
     (if mode selection = ModeNone then exec_loop vcs diff rest staged st
      else
        (case getHunk diff (hunkId selection) of
           None \<Rightarrow> (failed (''Hunk not found: '' @ hunkId selection) staged, st)
         | Some hunk \<Rightarrow>
             (let patch = selection_patch hunk selection in
              case checkPatch vcs patch st of
                (Some e, st1) \<Rightarrow>
                  (failed (''Patch for '' @ hunkId selection @ '' won't apply: '' @ e) staged, st1)
              | (None, st1) \<Rightarrow>
                  (case applyPatchToIndex vcs patch st1 of
                     (Some e, st2) \<Rightarrow>
                       (failed (''Failed to stage '' @ hunkId selection @ '': '' @ e) staged, st2)
                   | (None, st2) \<Rightarrow>
                       exec_loop vcs diff rest (staged @ [hunkId selection]) st2))))"

section \<open>Diff parser (parser.ts)\<close>

subsection \<open>Character classes and the two header patterns\<close>

text \<open>
  \<open>.\<close> matches every code unit except the line terminators, \<open>\d\<close> the ASCII digits,
  \<open>\s\<close> (and \<open>trim\<close>) the white space and line terminators.
\<close>

definition is_line_terminator :: "char \<Rightarrow> bool" where
  "is_line_terminator c = (c = CHR 0x0A \<or> c = CHR 0x0D)"

definition is_digit :: "char \<Rightarrow> bool" where
  "is_digit c = (c \<in> set ''0123456789'')"

definition is_space :: "char \<Rightarrow> bool" where
  "is_space c = (c \<in> set [CHR 0x09, CHR 0x0A, CHR 0x0B, CHR 0x0C, CHR 0x0D, CHR 0x20, CHR 0xA0])"

definition trim :: "string \<Rightarrow> string" where
  "trim s = rev (dropWhile is_space (rev (dropWhile is_space s)))"

text \<open>\<open>parseInt(ds, 10)\<close> on a run of digits.\<close>

definition digit_val :: "char \<Rightarrow> nat" where
  "digit_val c = of_char c - 48"

definition parseInt :: "string \<Rightarrow> nat" where
  "parseInt ds = foldl (\<lambda>n c. 10 * n + digit_val c) 0 ds"

text \<open>
  \<open>/^diff --git a\/(.+) b\/(.+)$/\<close>.  After the fixed prefix the rest of the line is
  group 1, the separator \<open>" b/"\<close> and group 2, both groups non-empty and free of line
  terminators.  Group 1 is greedy, so backtracking settles on the last admissible
  position of the separator.
\<close>

definition file_header_splits :: "string \<Rightarrow> nat list" where
  "file_header_splits r =
     filter (\<lambda>i. take 3 (drop i r) = '' b/'' \<and> i + 3 < length r) [1..<length r]"

definition match_file_header :: "string \<Rightarrow> (string \<times> string) option" where
  "match_file_header line =
     (if \<not> startsWith line ''diff --git a/'' then None
      else
        (let r = drop 13 line in
         if list_ex is_line_terminator r then None
         else
           (case file_header_splits r of
              [] \<Rightarrow> None
            | i # is \<Rightarrow> Some (take (last (i # is)) r, drop (last (i # is) + 3) r))))"

text \<open>
  \<open>/^@@ -(\d+)(?:,(\d+))? \+(\d+)(?:,(\d+))? @@(.*)$/\<close>.  Each digit run is followed by
  a non-digit, so the longest run is the only one that can match; the optional count is
  present exactly when a comma and a digit follow.
\<close>

definition opt_count :: "string \<Rightarrow> string option \<times> string" where
  "opt_count s =
     (case s of
        [] \<Rightarrow> (None, s)
      | c # t \<Rightarrow>
          (if c = CHR '','' \<and> takeWhile is_digit t \<noteq> []
           then (Some (takeWhile is_digit t), dropWhile is_digit t)
           else (None, s)))"

record HeaderMatch =
  m_oldStart :: string
  m_oldCount :: "string option"
  m_newStart :: string
  m_newCount :: "string option"
  m_context :: string

definition match_hunk_header :: "string \<Rightarrow> HeaderMatch option" where
  "match_hunk_header line =
     (if \<not> startsWith line ''@@ -'' then None
      else
        (let s1 = drop 4 line; d1 = takeWhile is_digit s1; s2 = dropWhile is_digit s1 in
         if d1 = [] then None
         else
           (case opt_count s2 of (c1, s3) \<Rightarrow>
              if \<not> startsWith s3 '' +'' then None
              else
                (let s4 = drop 2 s3; d2 = takeWhile is_digit s4; s5 = dropWhile is_digit s4 in
                 if d2 = [] then None
                 else
                   (case opt_count s5 of (c2, s6) \<Rightarrow>
                      if \<not> startsWith s6 '' @@'' then None
                      else if list_ex is_line_terminator (drop 3 s6) then None
                      else Some \<lparr>m_oldStart = d1, m_oldCount = c1, m_newStart = d2,
                                  m_newCount = c2, m_context = drop 3 s6\<rparr>)))))"

definition count_or_one :: "string option \<Rightarrow> nat" where
  "count_or_one c = (case c of None \<Rightarrow> 1 | Some ds \<Rightarrow> parseInt ds)"

definition context_of :: "string \<Rightarrow> string option" where
  "context_of c = (if trim c = [] then None else Some (trim c))"

subsection \<open>parseHunkHeader and validateHunk\<close>

record HeaderInfo =
  h_oldStart :: nat
  h_oldCount :: nat
  h_newStart :: nat
  h_newCount :: nat
  h_context :: "string option"

definition parseHunkHeader :: "string \<Rightarrow> HeaderInfo option" where
  "parseHunkHeader hdr =
     (case match_hunk_header hdr of
        None \<Rightarrow> None
      | Some m \<Rightarrow>
          Some \<lparr>h_oldStart = parseInt (m_oldStart m), h_oldCount = count_or_one (m_oldCount m),
                h_newStart = parseInt (m_newStart m), h_newCount = count_or_one (m_newCount m),
                h_context = context_of (m_context m)\<rparr>)"

text \<open>\<open>validateHunk\<close>: \<open>None\<close> is \<open>{valid: true}\<close>, \<open>Some e\<close> carries the error text.\<close>

definition validateHunk :: "Hunk \<Rightarrow> string option" where
  "validateHunk hunk =
     (let contextCount = length (filter (\<lambda>l. type l = Context) (lines hunk));
          removeCount = length (filter (\<lambda>l. type l = Remove) (lines hunk));
          addCount = length (filter (\<lambda>l. type l = Add) (lines hunk));
          expectedOldCount = contextCount + removeCount;
          expectedNewCount = contextCount + addCount
      in if expectedOldCount \<noteq> oldCount hunk then
           Some (''Old count mismatch: header says '' @ show_nat (oldCount hunk)
                 @ '', actual is '' @ show_nat expectedOldCount)
         else if expectedNewCount \<noteq> newCount hunk then
           Some (''New count mismatch: header says '' @ show_nat (newCount hunk)
                 @ '', actual is '' @ show_nat expectedNewCount)
         else None)"

subsection \<open>parseDiff\<close>

record ParseState =
  files :: "FileDiff list"
  currentFile :: "FileDiff option"
  currentHunk :: "Hunk option"
  hunkIndex :: nat

definition is_plain_meta :: "string \<Rightarrow> bool" where
  "is_plain_meta metaLine =
     (startsWith metaLine ''index '' \<or> startsWith metaLine ''--- '' \<or>
      startsWith metaLine ''+++ '' \<or> startsWith metaLine ''old mode'' \<or>
      startsWith metaLine ''new mode'' \<or> startsWith metaLine ''similarity index'' \<or>
      startsWith metaLine ''rename from'' \<or> startsWith metaLine ''rename to'' \<or>
      startsWith metaLine ''Binary files'')"

text \<open>
  The look-ahead loop after a file header: it returns the file with its flags set and
  the lines from the first non-metadata line on.
\<close>

fun meta_loop :: "FileDiff \<Rightarrow> string list \<Rightarrow> FileDiff \<times> string list" where
  "meta_loop f [] = (f, [])"
| "meta_loop f (metaLine # rest) =
     (if startsWith metaLine ''new file mode'' then meta_loop (f\<lparr>isNew := True\<rparr>) rest
      else if startsWith metaLine ''deleted file mode'' then meta_loop (f\<lparr>isDeleted := True\<rparr>) rest
      else if is_plain_meta metaLine then meta_loop f rest
      else (f, metaLine # rest))"

text \<open>\<open>currentFile.hunks.push(currentHunk)\<close> when there is a current hunk.\<close>

definition push_hunk :: "FileDiff \<Rightarrow> Hunk option \<Rightarrow> FileDiff" where
  "push_hunk f h = (case h of None \<Rightarrow> f | Some x \<Rightarrow> f\<lparr>hunks := hunks f @ [x]\<rparr>)"

definition open_file :: "ParseState \<Rightarrow> string \<Rightarrow> string \<Rightarrow> string list \<Rightarrow> ParseState \<times> string list" where
  "open_file st oldP newP rest =
     (case meta_loop \<lparr>oldPath = oldP, newPath = newP, isNew = False, isDeleted = False,
                       isRenamed = (oldP \<noteq> newP), hunks = []\<rparr> rest of
        (f, rest') \<Rightarrow>
          (\<lparr>files = (case currentFile st of
                       None \<Rightarrow> files st
                     | Some cf \<Rightarrow> files st @ [push_hunk cf (currentHunk st)]),
            currentFile = Some f,
            currentHunk = (case currentFile st of None \<Rightarrow> currentHunk st | Some cf \<Rightarrow> None),
            hunkIndex = 0\<rparr>, rest'))"

definition new_hunk :: "FileDiff \<Rightarrow> nat \<Rightarrow> string \<Rightarrow> HeaderMatch \<Rightarrow> Hunk" where
  "new_hunk cf i line m =
     \<lparr> id' = newPath cf @ '':'' @ show_nat i,
       file' = newPath cf,
       index = i,
       header = line,
       oldStart = parseInt (m_oldStart m),
       oldCount = count_or_one (m_oldCount m),
       newStart = parseInt (m_newStart m),
       newCount = count_or_one (m_newCount m),
       lines = [],
       context' = context_of (m_context m) \<rparr>"

definition open_hunk :: "ParseState \<Rightarrow> FileDiff \<Rightarrow> string \<Rightarrow> HeaderMatch \<Rightarrow> ParseState" where
  "open_hunk st cf line m =
     st\<lparr>currentFile := Some (push_hunk cf (currentHunk st)),
        currentHunk := Some (new_hunk cf (hunkIndex st) line m),
        hunkIndex := hunkIndex st + 1\<rparr>"

definition body_line :: "ParseState \<Rightarrow> string \<Rightarrow> ParseState" where
  "body_line st line =
     (case (currentHunk st, line) of
        (Some h, prefix # cont) \<Rightarrow>
          (if prefix = CHR '' '' then
             st\<lparr>currentHunk := Some (h\<lparr>lines := lines h @ [\<lparr>type = Context, content = cont\<rparr>]\<rparr>)\<rparr>
           else if prefix = CHR ''-'' then
             st\<lparr>currentHunk := Some (h\<lparr>lines := lines h @ [\<lparr>type = Remove, content = cont\<rparr>]\<rparr>)\<rparr>
           else if prefix = CHR ''+'' then
             st\<lparr>currentHunk := Some (h\<lparr>lines := lines h @ [\<lparr>type = Add, content = cont\<rparr>]\<rparr>)\<rparr>
           else st)
      | _ \<Rightarrow> st)"

text \<open>
  The main \<open>while\<close> loop over the lines.  A file header hands the following lines to
  the look-ahead loop and goes on after them.
\<close>

function parse_loop :: "ParseState \<Rightarrow> string list \<Rightarrow> ParseState" where
  "parse_loop st [] = st"
| "parse_loop st (line # rest) =
     (case match_file_header line of
        Some (oldP, newP) \<Rightarrow>
          parse_loop (fst (open_file st oldP newP rest)) (snd (open_file st oldP newP rest))
      | None \<Rightarrow>
          (case (match_hunk_header line, currentFile st) of
             (Some m, Some cf) \<Rightarrow> parse_loop (open_hunk st cf line m) rest
           | _ \<Rightarrow> parse_loop (body_line st line) rest))"
  by pat_completeness auto
termination
proof -
  have le: "length (snd (meta_loop f ls)) \<le> length ls" for f ls
    by (induction ls arbitrary: f) (auto simp: le_Suc_eq)
  have le': "meta_loop f ls = (g, ls') \<Longrightarrow> length ls' \<le> length ls" for f g ls ls'
    using le [of f ls] by simp
  show ?thesis
    by (relation "measure (\<lambda>p. length (snd p))")
       (auto simp: open_file_def less_Suc_eq_le split: prod.splits dest: le')
qed

declare parse_loop.simps(2) [simp del]

definition finish :: "ParseState \<Rightarrow> ParsedDiff" where
  "finish st =
     (case currentFile st of
        None \<Rightarrow> files st
      | Some cf \<Rightarrow> files st @ [push_hunk cf (currentHunk st)])"

definition initial_state :: ParseState where
  "initial_state = \<lparr>files = [], currentFile = None, currentHunk = None, hunkIndex = 0\<rparr>"

definition parseDiff :: "string \<Rightarrow> ParsedDiff" where
  "parseDiff diffString = finish (parse_loop initial_state (split_nl diffString))"

section \<open>Plan documents (interactive.ts)\<close>

subsection \<open>The line patterns of parseStagingPlanDocument\<close>

text \<open>
  The \<open>i\<close> flag folds ASCII letters only (a code unit of 128 or above never folds
  onto one below 128).
\<close>

definition to_lower :: "char \<Rightarrow> char" where
  "to_lower c =
     (if 65 \<le> (of_char c :: nat) \<and> (of_char c :: nat) \<le> 90 then char_of ((of_char c :: nat) + 32)
      else c)"

text \<open>
  \<open>\s*(.+)$\<close> at the end of a pattern: the white space is greedy but gives back its
  last character when nothing else is left for the group.
\<close>

definition spaces_then_rest :: "string \<Rightarrow> string option" where
  "spaces_then_rest r =
     (let ws = takeWhile is_space r; body = dropWhile is_space r in
      if body \<noteq> [] then (if list_ex is_line_terminator body then None else Some body)
      else if ws \<noteq> [] \<and> \<not> is_line_terminator (last ws) then Some [last ws]
      else None)"

text \<open>\<open>\s+\<close> in front of something that does not start with white space.\<close>

definition skip_spaces1 :: "string \<Rightarrow> string option" where
  "skip_spaces1 r = (if takeWhile is_space r = [] then None else Some (dropWhile is_space r))"

text \<open>\<open>/^Commit message:\s*(.+)$/\<close>\<close>

definition match_commit_message :: "string \<Rightarrow> string option" where
  "match_commit_message line =
     (if startsWith line ''Commit message:'' then spaces_then_rest (drop 15 line) else None)"

text \<open>\<open>/^\[(x|~| )\]\s+(\S+)/\<close>: the checkbox character and the file name.\<close>

definition match_file_checkbox :: "string \<Rightarrow> (char \<times> string) option" where
  "match_file_checkbox line =
     (case line of
        b # c # e # r \<Rightarrow>
          (if b = CHR ''['' \<and> (c = CHR ''x'' \<or> c = CHR ''~'' \<or> c = CHR '' '') \<and> e = CHR '']'' then
             (case skip_spaces1 r of
                None \<Rightarrow> None
              | Some r' \<Rightarrow>
                  (if takeWhile (\<lambda>a. \<not> is_space a) r' = [] then None
                   else Some (c, takeWhile (\<lambda>a. \<not> is_space a) r')))
           else None)
      | _ \<Rightarrow> None)"

text \<open>
  \<open>/^###\s+(\S+:\d+)/\<close>: \<open>\S+\<close> first takes the whole run of non-space characters and
  backs off to the last colon of the run that has a digit behind it; \<open>\d+\<close> then takes
  the digits that follow.
\<close>

definition hunk_id_splits :: "string \<Rightarrow> nat list" where
  "hunk_id_splits w =
     filter (\<lambda>k. w ! k = CHR '':'' \<and> is_digit (w ! (k + 1))) [1..<length w - 1]"

definition match_hunk_section :: "string \<Rightarrow> string option" where
  "match_hunk_section line =
     (if \<not> startsWith line ''###'' then None
      else
        (case skip_spaces1 (drop 3 line) of
           None \<Rightarrow> None
         | Some r \<Rightarrow>
             (let w = takeWhile (\<lambda>a. \<not> is_space a) r in
              case hunk_id_splits w of
                [] \<Rightarrow> None
              | k # ks \<Rightarrow>
                  Some (take (last (k # ks) + 1) w
                        @ takeWhile is_digit (drop (last (k # ks) + 1) w)))))"

text \<open>\<open>/^\[x\]\s+Include entire hunk/i\<close>\<close>

definition match_entire_hunk :: "string \<Rightarrow> bool" where
  "match_entire_hunk line =
     (case line of
        b # c # e # r \<Rightarrow>
          b = CHR ''['' \<and> to_lower c = CHR ''x'' \<and> e = CHR '']'' \<and>
          (case skip_spaces1 r of
             None \<Rightarrow> False
           | Some r' \<Rightarrow> map to_lower (take 19 r') = ''include entire hunk'')
      | _ \<Rightarrow> False)"

text \<open>
  The common part \<open>\s+\[\s*(\d+)\]\<close> of the three line-selection patterns: the digits
  and what follows the closing bracket.
\<close>

definition match_index_bracket :: "string \<Rightarrow> (string \<times> string) option" where
  "match_index_bracket r =
     (case skip_spaces1 r of
        None \<Rightarrow> None
      | Some r1 \<Rightarrow>
          (case r1 of
             [] \<Rightarrow> None
           | b # r2 \<Rightarrow>
               (if b \<noteq> CHR ''['' then None
                else
                  (let r3 = dropWhile is_space r2;
                       ds = takeWhile is_digit r3;
                       r4 = dropWhile is_digit r3
                   in if ds = [] then None
                      else (case r4 of
                              [] \<Rightarrow> None
                            | e # r5 \<Rightarrow> if e = CHR '']'' then Some (ds, r5) else None)))))"

text \<open>\<open>/^\[x\]\s+\[\s*(\d+)\]\s*\+/\<close> and \<open>/^\[x\]\s+\[\s*(\d+)\]\s*-/\<close>, by the sign.\<close>

definition match_line_x :: "char \<Rightarrow> string \<Rightarrow> string option" where
  "match_line_x sign line =
     (case line of
        b # c # e # r \<Rightarrow>
          (if b = CHR ''['' \<and> c = CHR ''x'' \<and> e = CHR '']'' then
             (case match_index_bracket r of
                None \<Rightarrow> None
              | Some (ds, r') \<Rightarrow>
                  (case dropWhile is_space r' of
                     [] \<Rightarrow> None
                   | a # t \<Rightarrow> if a = sign then Some ds else None))
           else None)
      | _ \<Rightarrow> None)"

text \<open>\<open>/^\[E\]\s+\[\s*(\d+)\]/i\<close>\<close>

definition match_line_E :: "string \<Rightarrow> string option" where
  "match_line_E line =
     (case line of
        b # c # e # r \<Rightarrow>
          (if b = CHR ''['' \<and> to_lower c = CHR ''e'' \<and> e = CHR '']'' then
             (case match_index_bracket r of
                None \<Rightarrow> None
              | Some (ds, r') \<Rightarrow> Some ds)
           else None)
      | _ \<Rightarrow> None)"

text \<open>\<open>/^EDIT\s+\[(\d+)\]:\s*(.+)$/\<close>\<close>

definition match_edit_directive :: "string \<Rightarrow> (string \<times> string) option" where
  "match_edit_directive line =
     (if \<not> startsWith line ''EDIT'' then None
      else
        (case skip_spaces1 (drop 4 line) of
           None \<Rightarrow> None
         | Some r1 \<Rightarrow>
             (case r1 of
                [] \<Rightarrow> None
              | b # r2 \<Rightarrow>
                  (if b \<noteq> CHR ''['' \<or> takeWhile is_digit r2 = [] then None
                   else
                     (case dropWhile is_digit r2 of
                        e # c # r3 \<Rightarrow>
                          (if e = CHR '']'' \<and> c = CHR '':'' then
                             (case spaces_then_rest r3 of
                                None \<Rightarrow> None
                              | Some body \<Rightarrow> Some (takeWhile is_digit r2, body))
                           else None)
                      | _ \<Rightarrow> None)))))"

subsection \<open>parseCompensations\<close>

datatype CompensationType = add_lines | add_after_line | add_before_line | replace_line

record Compensation =
  comp_file :: string
  comp_type :: CompensationType
  lineNumber :: "nat option"
  afterPattern :: "string option"
  beforePattern :: "string option"
  comp_content :: string
  reason :: "string option"
  removedBy :: "string option"

text \<open>A literal of a pattern under the \<open>i\<close> flag; \<open>p\<close> is written in lower case.\<close>

definition ci_prefix :: "string \<Rightarrow> string \<Rightarrow> bool" where
  "ci_prefix p s = (map to_lower (take (length p) s) = p)"

text \<open>\<open>"([^"]+)":\<close>: a non-empty run without a double quote, between double quotes, then a colon.\<close>

definition match_quoted :: "string \<Rightarrow> string option" where
  "match_quoted r =
     (case r of
        [] \<Rightarrow> None
      | q # t \<Rightarrow>
          (if q \<noteq> CHR 0x22 \<or> takeWhile (\<lambda>c. c \<noteq> CHR 0x22) t = [] then None
           else
             (case dropWhile (\<lambda>c. c \<noteq> CHR 0x22) t of
                q' # c # u \<Rightarrow> if c = CHR '':'' then Some (takeWhile (\<lambda>c. c \<noteq> CHR 0x22) t) else None
              | _ \<Rightarrow> None)))"

text \<open>\<open>LINE\s+(\d+):\<close> under the \<open>i\<close> flag.\<close>

definition match_line_number :: "string \<Rightarrow> string option" where
  "match_line_number r =
     (if \<not> ci_prefix ''line'' r then None
      else
        (case skip_spaces1 (drop 4 r) of
           None \<Rightarrow> None
         | Some r' \<Rightarrow>
             (if takeWhile is_digit r' = [] then None
              else
                (case dropWhile is_digit r' of
                   [] \<Rightarrow> None
                 | c # u \<Rightarrow> if c = CHR '':'' then Some (takeWhile is_digit r') else None))))"

text \<open>
  The three header patterns
  \<open>/^COMPENSATE\s+(\S+)\s+AFTER\s+"([^"]+)":/i\<close>,
  \<open>/^COMPENSATE\s+(\S+)\s+AFTER\s+LINE\s+(\d+):/i\<close> and
  \<open>/^COMPENSATE\s+(\S+)\s+BEFORE\s+"([^"]+)":/i\<close>, tried in this order; the result is
  the compensation with its file, type and anchor set and empty content.
\<close>

definition compensation_for :: "string \<Rightarrow> CompensationType \<Rightarrow> Compensation" where
  "compensation_for f t =
     \<lparr>comp_file = f, comp_type = t, lineNumber = None, afterPattern = None,
      beforePattern = None, comp_content = [], reason = None, removedBy = None\<rparr>"

definition match_compensate :: "string \<Rightarrow> Compensation option" where
  "match_compensate line =
     (if \<not> ci_prefix ''compensate'' line then None
      else
        (case skip_spaces1 (drop 10 line) of
           None \<Rightarrow> None
         | Some r1 \<Rightarrow>
             (let f = takeWhile (\<lambda>a. \<not> is_space a) r1 in
              if f = [] then None
              else
                (case skip_spaces1 (dropWhile (\<lambda>a. \<not> is_space a) r1) of
                   None \<Rightarrow> None
                 | Some r2 \<Rightarrow>
                     (if ci_prefix ''after'' r2 then
                        (case skip_spaces1 (drop 5 r2) of
                           None \<Rightarrow> None
                         | Some r3 \<Rightarrow>
                             (case match_quoted r3 of
                                Some pat \<Rightarrow>
                                  Some ((compensation_for f add_after_line)\<lparr>afterPattern := Some pat\<rparr>)
                              | None \<Rightarrow>
                                  (case match_line_number r3 of
                                     Some ds \<Rightarrow>
                                       Some ((compensation_for f add_after_line)
                                               \<lparr>lineNumber := Some (parseInt ds)\<rparr>)
                                   | None \<Rightarrow> None)))
                      else if ci_prefix ''before'' r2 then
                        (case skip_spaces1 (drop 6 r2) of
                           None \<Rightarrow> None
                         | Some r3 \<Rightarrow>
                             (case match_quoted r3 of
                                Some pat \<Rightarrow>
                                  Some ((compensation_for f add_before_line)\<lparr>beforePattern := Some pat\<rparr>)
                              | None \<Rightarrow> None))
                      else None)))))"

text \<open>\<open>/^REASON:\s*(.+)$/i\<close> and \<open>/^REMOVED_BY:\s*(.+)$/i\<close>, by the keyword in lower case.\<close>

definition match_metadata :: "string \<Rightarrow> string \<Rightarrow> string option" where
  "match_metadata key line =
     (if ci_prefix key line then spaces_then_rest (drop (length key) line) else None)"

text \<open>\<open>/^COMPENSATE\s/i\<close> or \<open>/^###\s/\<close>: the next block begins.\<close>

definition starts_next_block :: "string \<Rightarrow> bool" where
  "starts_next_block line =
     ((ci_prefix ''compensate'' line \<and> list_ex is_space (take 1 (drop 10 line))) \<or>
      (startsWith line ''###'' \<and> list_ex is_space (take 1 (drop 3 line))))"

text \<open>
  The inner loop over the lines after a header.  It returns the compensation with the
  metadata it met, the content lines and the lines that remain for the outer loop.
\<close>

fun content_loop ::
  "Compensation \<Rightarrow> string list \<Rightarrow> string list \<Rightarrow> Compensation \<times> string list \<times> string list" where
  "content_loop c contentLines [] = (c, contentLines, [])"
| "content_loop c contentLines (contentLine # rest) =
     (case match_metadata ''reason:'' contentLine of
        Some r \<Rightarrow> content_loop (c\<lparr>reason := Some r\<rparr>) contentLines rest
      | None \<Rightarrow>
          (case match_metadata ''removed_by:'' contentLine of
             Some r \<Rightarrow> content_loop (c\<lparr>removedBy := Some r\<rparr>) contentLines rest
           | None \<Rightarrow>
               if starts_next_block contentLine then (c, contentLines, contentLine # rest)
               else if startsWith contentLine ''  '' \<or> trim contentLine = [] then
                 content_loop c
                   (contentLines @ [if startsWith contentLine ''  '' then drop 2 contentLine
                                    else contentLine]) rest
               else if length contentLines = 0 then
                 content_loop c (contentLines @ [contentLine]) rest
               else (c, contentLines, contentLine # rest)))"

function compensation_loop :: "string list \<Rightarrow> Compensation list" where
  "compensation_loop [] = []"
| "compensation_loop (line # rest) =
     (case match_compensate line of
        None \<Rightarrow> compensation_loop rest
      | Some c \<Rightarrow>
          (case content_loop c [] rest of
             (c', contentLines, rest') \<Rightarrow>
               (if trim (join [CHR 0x0A] contentLines) = [] then compensation_loop rest'
                else c'\<lparr>comp_content := trim (join [CHR 0x0A] contentLines)\<rparr>
                       # compensation_loop rest')))"
  by pat_completeness auto
termination
proof -
  have le: "length (snd (snd (content_loop c ls rest))) \<le> length rest" for c ls rest
    by (induction rest arbitrary: c ls) (auto simp: le_Suc_eq split: option.splits)
  have le': "(c', ls', rest') = content_loop c ls rest \<Longrightarrow> length rest' \<le> length rest"
    for c c' ls ls' rest rest'
    using le [of c ls rest] by (metis snd_conv)
  show ?thesis
    by (relation "measure length") (auto simp: less_Suc_eq_le dest: le')
qed

definition parseCompensations :: "string \<Rightarrow> Compensation list" where
  "parseCompensations document = compensation_loop (split_nl document)"

subsection \<open>parseStagingPlanDocument\<close>

record StagingPlan =
  commitMessage :: string
  selections :: "HunkSelection list"
  compensations :: "Compensation list option"

datatype FileMode = FileAll | FilePartial | FileSkip

fun find_commit_message :: "string list \<Rightarrow> string" where
  "find_commit_message [] = ''untitled commit''"
| "find_commit_message (line # rest) =
     (case match_commit_message line of
        Some m \<Rightarrow> trim m
      | None \<Rightarrow> find_commit_message rest)"

text \<open>
  \<open>fileLevelSelections\<close>: the entries in the order of the lines; a later \<open>set\<close> for
  a name overrides an earlier one, so the lookup takes the last entry.
\<close>

fun file_level_entries :: "string list \<Rightarrow> (string \<times> FileMode) list" where
  "file_level_entries [] = []"
| "file_level_entries (line # rest) =
     (case match_file_checkbox line of
        Some (checkbox, filename) \<Rightarrow>
          (filename, (if checkbox = CHR ''x'' then FileAll
                      else if checkbox = CHR ''~'' then FilePartial else FileSkip))
          # file_level_entries rest
      | None \<Rightarrow> file_level_entries rest)"

definition file_level_get :: "(string \<times> FileMode) list \<Rightarrow> string \<Rightarrow> FileMode option" where
  "file_level_get es k = map_of (rev es) k"

definition plain_selection :: "string \<Rightarrow> SelectionMode \<Rightarrow> HunkSelection" where
  "plain_selection i m =
     \<lparr>hunkId = i, mode = m, includeAdditions = None, includeRemovals = None,
      lineEdits = None, note' = None\<rparr>"

fun file_level_selections :: "(string \<times> FileMode) list \<Rightarrow> FileDiff list \<Rightarrow> HunkSelection list" where
  "file_level_selections es [] = []"
| "file_level_selections es (f # fs) =
     (let m = (case file_level_get es (newPath f) of
                 Some x \<Rightarrow> Some x
               | None \<Rightarrow> file_level_get es (oldPath f))
      in (if m = Some FileAll then map (\<lambda>h. plain_selection (id' h) ModeAll) (hunks f)
          else if m = Some FileSkip then map (\<lambda>h. plain_selection (id' h) ModeNone) (hunks f)
          else [])
         @ file_level_selections es fs)"

definition non_empty :: "'a list \<Rightarrow> 'a list option" where
  "non_empty xs = (if length xs > 0 then Some xs else None)"

definition createSelectionWithRemovals ::
  "string \<Rightarrow> bool \<Rightarrow> nat list \<Rightarrow> nat list \<Rightarrow> LineEdit list \<Rightarrow> HunkSelection" where
  "createSelectionWithRemovals i entireHunk additions removals edits =
     (if entireHunk then
        \<lparr>hunkId = i, mode = ModeAll, includeAdditions = None, includeRemovals = None,
         lineEdits = non_empty edits, note' = None\<rparr>
      else if length additions > 0 \<or> length removals > 0 \<or> length edits > 0 then
        \<lparr>hunkId = i, mode = ModePartial, includeAdditions = non_empty additions,
         includeRemovals = non_empty removals, lineEdits = non_empty edits, note' = None\<rparr>
      else plain_selection i ModeNone)"

record DocState =
  ds_selections :: "HunkSelection list"
  currentHunkId :: "string option"
  entireHunkSelected :: bool
  selectedAdditions :: "nat list"
  selectedRemovals :: "nat list"
  ds_lineEdits :: "LineEdit list"
  inCodeBlock :: bool

definition save_hunk :: "DocState \<Rightarrow> HunkSelection list" where
  "save_hunk st =
     (case currentHunkId st of
        None \<Rightarrow> ds_selections st
      | Some i \<Rightarrow>
          ds_selections st
          @ [createSelectionWithRemovals i (entireHunkSelected st) (selectedAdditions st)
               (selectedRemovals st) (ds_lineEdits st)])"

text \<open>One round of the third \<open>for\<close> loop; each \<open>continue\<close> is a branch.\<close>

definition doc_step :: "DocState \<Rightarrow> string \<Rightarrow> DocState" where
  "doc_step st line =
     (case match_hunk_section line of
        Some i \<Rightarrow>
          \<lparr>ds_selections = save_hunk st, currentHunkId = Some i, entireHunkSelected = False,
           selectedAdditions = [], selectedRemovals = [], ds_lineEdits = [],
           inCodeBlock = False\<rparr>
      | None \<Rightarrow>
          if match_entire_hunk line then st\<lparr>entireHunkSelected := True\<rparr>
          else if startsWith line ''```'' then st\<lparr>inCodeBlock := \<not> inCodeBlock st\<rparr>
          else if inCodeBlock st \<and> currentHunkId st \<noteq> None
                  \<and> match_line_x (CHR ''+'') line \<noteq> None then
            (case match_line_x (CHR ''+'') line of
               Some ds \<Rightarrow> st\<lparr>selectedAdditions := selectedAdditions st @ [parseInt ds]\<rparr>
             | None \<Rightarrow> st)
          else if inCodeBlock st \<and> currentHunkId st \<noteq> None
                  \<and> match_line_x (CHR ''-'') line \<noteq> None then
            (case match_line_x (CHR ''-'') line of
               Some ds \<Rightarrow> st\<lparr>selectedRemovals := selectedRemovals st @ [parseInt ds]\<rparr>
             | None \<Rightarrow> st)
          else if inCodeBlock st \<and> currentHunkId st \<noteq> None \<and> match_line_E line \<noteq> None then
            (case match_line_E line of
               Some ds \<Rightarrow> st\<lparr>selectedAdditions := selectedAdditions st @ [parseInt ds]\<rparr>
             | None \<Rightarrow> st)
          else
            (case (match_edit_directive line, currentHunkId st) of
               (Some (ds, body), Some i) \<Rightarrow>
                 st\<lparr>ds_lineEdits := ds_lineEdits st
                                     @ [\<lparr>lineIndex = parseInt ds, newContent = body\<rparr>]\<rparr>
             | _ \<Rightarrow> st))"

definition parseStagingPlanDocument :: "string \<Rightarrow> ParsedDiff option \<Rightarrow> StagingPlan" where
  "parseStagingPlanDocument document diff =
     (let ls = split_nl document;
          entries = file_level_entries ls;
          pre = (case diff of
                   None \<Rightarrow> []
                 | Some d \<Rightarrow> if length entries > 0 then file_level_selections entries d else [])
      in \<lparr>commitMessage = find_commit_message ls,
          selections =
            save_hunk (foldl doc_step
              \<lparr>ds_selections = pre, currentHunkId = None, entireHunkSelected = False,
               selectedAdditions = [], selectedRemovals = [], ds_lineEdits = [],
               inCodeBlock = False\<rparr> ls),
          compensations = non_empty (parseCompensations document)\<rparr>)"

definition executeStagingPlan ::
  "'v VCS \<Rightarrow> ParsedDiff \<Rightarrow> StagingPlan \<Rightarrow> 'v \<Rightarrow> ExecResult \<times> 'v" where
  "executeStagingPlan vcs diff plan st = exec_loop vcs diff (selections plan) [] st"

section \<open>Predicates of the specification and example inputs\<close>

text \<open>Count consistency of a hunk: the invariant of the data model.\<close>

definition counts_consistent :: "Hunk \<Rightarrow> bool" where
  "counts_consistent h =
     (oldCount h = length (filter (\<lambda>l. type l \<noteq> Add) (lines h)) \<and>
      newCount h = length (filter (\<lambda>l. type l \<noteq> Remove) (lines h)))"

text \<open>
  A hunk whose stored counts disagree with its body (as in the test of
  \<open>recalculateHeader\<close>), and one whose counts agree.
\<close>

definition hunk_wrong_counts :: Hunk where
  "hunk_wrong_counts =
     \<lparr> id' = ''test:0'', file' = ''test.txt'', index = 0, header = ''@@ -1,99 +1,99 @@'',
       oldStart = 1, oldCount = 99, newStart = 1, newCount = 99,
       lines = [\<lparr>type = Context, content = ''line 1''\<rparr>,
                \<lparr>type = Remove, content = ''removed line''\<rparr>,
                \<lparr>type = Context, content = ''line 2''\<rparr>],
       context' = None \<rparr>"

definition hunk_mixed :: Hunk where
  "hunk_mixed =
     \<lparr> id' = ''test:0'', file' = ''test.txt'', index = 0, header = ''@@ -1,3 +1,4 @@'',
       oldStart = 1, oldCount = 3, newStart = 1, newCount = 4,
       lines = [\<lparr>type = Context, content = ''line 1''\<rparr>,
                \<lparr>type = Remove, content = ''removed line''\<rparr>,
                \<lparr>type = Add, content = ''added 1''\<rparr>,
                \<lparr>type = Add, content = ''added 2''\<rparr>,
                \<lparr>type = Context, content = ''line 2''\<rparr>],
       context' = None \<rparr>"

text \<open>"More than one addition or more than one removal."\<close>

definition multiple_changes :: "Hunk \<Rightarrow> bool" where
  "multiple_changes h =
     (length (filter (\<lambda>l. type l = Add) (lines h)) > 1 \<or>
      length (filter (\<lambda>l. type l = Remove) (lines h)) > 1)"

text \<open>The splittable hunk of the tests of \<open>hunkToLLMHunk\<close> (built by \<open>makeHunk\<close>).\<close>

definition hunk_two_changes :: Hunk where
  "hunk_two_changes =
     \<lparr> id' = ''src/app.ts:0'', file' = ''src/app.ts'', index = 0, header = ''@@ -10,2 +10,2 @@'',
       oldStart = 10, oldCount = 2, newStart = 10, newCount = 4,
       lines = [\<lparr>type = Add, content = ''first change''\<rparr>,
                \<lparr>type = Context, content = ''gap 1''\<rparr>,
                \<lparr>type = Context, content = ''gap 2''\<rparr>,
                \<lparr>type = Add, content = ''second change''\<rparr>],
       context' = None \<rparr>"

text \<open>A splittable hunk that ends in two context lines.\<close>

definition hunk_trailing_context :: Hunk where
  "hunk_trailing_context =
     \<lparr> id' = ''src/app.ts:0'', file' = ''src/app.ts'', index = 0, header = ''@@ -10,3 +10,5 @@'',
       oldStart = 10, oldCount = 3, newStart = 10, newCount = 5,
       lines = [\<lparr>type = Add, content = ''first change''\<rparr>,
                \<lparr>type = Context, content = ''gap''\<rparr>,
                \<lparr>type = Add, content = ''second change''\<rparr>,
                \<lparr>type = Context, content = ''after 1''\<rparr>,
                \<lparr>type = Context, content = ''after 2''\<rparr>],
       context' = None \<rparr>"

text \<open>A splittable hunk with one addition and one removal.\<close>

definition hunk_add_remove :: Hunk where
  "hunk_add_remove =
     \<lparr> id' = ''src/app.ts:0'', file' = ''src/app.ts'', index = 0, header = ''@@ -10,2 +10,2 @@'',
       oldStart = 10, oldCount = 2, newStart = 10, newCount = 2,
       lines = [\<lparr>type = Add, content = ''first change''\<rparr>,
                \<lparr>type = Context, content = ''gap''\<rparr>,
                \<lparr>type = Remove, content = ''second change''\<rparr>],
       context' = None \<rparr>"

text \<open>
  A collaborator that accepts every patch; its state is the list of the patch texts
  applied to the index so far.
\<close>

definition accepting_vcs :: "(string list) VCS" where
  "accepting_vcs =
     \<lparr> checkPatch = (\<lambda>patch st. (None, st)),
       applyPatchToIndex = (\<lambda>patch st. (None, st @ [patch])) \<rparr>"

text \<open>"Empty or absent" for an optional index set of a selection.\<close>

definition empty_or_absent :: "nat list option \<Rightarrow> bool" where
  "empty_or_absent xs = (xs = None \<or> xs = Some [])"

text \<open>A one-file diff holding \<open>hunk_mixed\<close>, and selections for it.\<close>

definition diff_mixed :: ParsedDiff where
  "diff_mixed =
     [\<lparr>oldPath = ''test.txt'', newPath = ''test.txt'', isNew = False, isDeleted = False,
       isRenamed = False, hunks = [hunk_mixed]\<rparr>]"

definition plan_of :: "HunkSelection list \<Rightarrow> StagingPlan" where
  "plan_of sels = \<lparr>commitMessage = ''c'', selections = sels, compensations = None\<rparr>"

definition select_nothing_partial :: HunkSelection where
  "select_nothing_partial = plain_selection ''test:0'' ModePartial"

definition select_all :: HunkSelection where
  "select_all = plain_selection ''test:0'' ModeAll"

definition select_missing :: HunkSelection where
  "select_missing = plain_selection ''missing:9'' ModeAll"

definition skip_missing :: HunkSelection where
  "skip_missing = plain_selection ''missing:9'' ModeNone"

text \<open>
  The plan document of the test "should parse line edits" and a diff holding the hunk
  it speaks of.
\<close>

definition doc_line_edit :: string where
  "doc_line_edit = join [CHR 0x0A]
     [''# Staging Plan'', '''', ''Commit message: test'', '''', ''---'', '''',
      ''## file.txt'', '''', ''### file.txt:0'', '''', ''[ ] Include entire hunk'', '''',
      ''```'',
      ''    [ 0]   line 1'',
      ''[E] [ 1] + import { foo, bar, baz } from utils;'',
      ''    [ 2]   line 2'',
      ''```'', '''',
      ''EDIT [1]: import { foo, bar } from utils;'', '''']"

definition diff_line_edit :: string where
  "diff_line_edit = join [CHR 0x0A]
     [''diff --git a/file.txt b/file.txt'', ''--- a/file.txt'', ''+++ b/file.txt'',
      ''@@ -1,2 +1,3 @@'',
      '' line 1'',
      ''+import { foo, bar, baz } from utils;'',
      '' line 2'', '''']"

text \<open>
  The plan document of the test "should parse partial line selections", with the
  checkbox of line 1 written \<open>[x]\<close> and \<open>[X]\<close>, and the document of the test
  "should parse selected hunks (entire hunk)" with its checkbox written \<open>[X]\<close>.
\<close>

definition doc_partial :: "char \<Rightarrow> string" where
  "doc_partial c = join [CHR 0x0A]
     [''# Staging Plan'', '''', ''Commit message: test'', '''', ''---'', '''',
      ''## file.txt'', '''', ''### file.txt:0'', '''', ''[ ] Include entire hunk'', '''',
      ''```'',
      ''    [ 0]   line 1'',
      [CHR ''['', c, CHR '']''] @ '' [ 1] + added 1'',
      ''[ ] [ 2] + added 2'',
      ''    [ 3]   line 2'',
      ''```'', '''']"

definition doc_entire :: "char \<Rightarrow> string" where
  "doc_entire c = join [CHR 0x0A]
     [''# Staging Plan'', '''', ''Commit message: test'', '''', ''---'', '''',
      ''## file.txt'', '''', ''### file.txt:0'', '''',
      [CHR ''['', c, CHR '']''] @ '' Include entire hunk'', '''',
      ''```'',
      ''    [ 0]   line 1'',
      ''[ ] [ 1] + added'',
      ''    [ 2]   line 2'',
      ''```'', '''']"

text \<open>A file-level plan document for the diff above.\<close>

definition doc_file_level :: "char \<Rightarrow> string" where
  "doc_file_level c = join [CHR 0x0A]
     [''# File-Level Staging Plan'', '''', ''Commit message: test'', '''',
      [CHR ''['', c, CHR '']''] @ '' file.txt (modified, 1 hunk, +1/-0)'', '''']"

subsection \<open>What the parser guarantees of its output\<close>

text \<open>
  A path that the file-header pattern can return as its second group: not empty, free
  of line terminators, and with no \<open>" b/"\<close> that still has text behind it.
\<close>

definition path_ok :: "string \<Rightarrow> bool" where
  "path_ok p =
     (p \<noteq> [] \<and> \<not> list_ex is_line_terminator p \<and>
      filter (\<lambda>i. take 3 (drop i p) = '' b/'' \<and> i + 3 < length p) [0..<length p] = [])"

text \<open>
  A hunk as the parser builds it for the file \<open>p\<close> at position \<open>i\<close>: file, index and
  id as assigned, the numeric fields and the context those of its header line, and no
  newline inside the header or a line.
\<close>

definition wf_hunk :: "string \<Rightarrow> nat \<Rightarrow> Hunk \<Rightarrow> bool" where
  "wf_hunk p i h =
     (file' h = p \<and> index h = i \<and> id' h = p @ '':'' @ show_nat i \<and>
      parseHunkHeader (header h)
        = Some \<lparr>h_oldStart = oldStart h, h_oldCount = oldCount h, h_newStart = newStart h,
                h_newCount = newCount h, h_context = context' h\<rparr> \<and>
      CHR 0x0A \<notin> set (header h) \<and>
      list_all (\<lambda>l. CHR 0x0A \<notin> set (content l)) (lines h))"

definition wf_file :: "FileDiff \<Rightarrow> bool" where
  "wf_file f =
     (path_ok (newPath f) \<and> list_all2 (wf_hunk (newPath f)) [0..<length (hunks f)] (hunks f))"

definition parse_inv :: "ParseState \<Rightarrow> bool" where
  "parse_inv st =
     (list_all wf_file (files st) \<and>
      (case currentFile st of
         None \<Rightarrow> currentHunk st = None
       | Some cf \<Rightarrow>
           wf_file (push_hunk cf (currentHunk st)) \<and>
           hunkIndex st = length (hunks (push_hunk cf (currentHunk st)))))"

text \<open>
  A diff cut off inside its only hunk (the header announces three old and four new
  lines), and the diff git prints when a symbolic link becomes a regular file: one
  deletion and one creation section for the same path.
\<close>

definition diff_truncated :: string where
  "diff_truncated = join [CHR 0x0A]
     [''diff --git a/file.txt b/file.txt'', ''index abc123..def456 100644'',
      ''--- a/file.txt'', ''+++ b/file.txt'',
      ''@@ -1,3 +1,4 @@'',
      '' line 1'',
      ''+added line'']"

definition diff_typechange :: string where
  "diff_typechange = join [CHR 0x0A]
     [''diff --git a/link b/link'', ''deleted file mode 120000'', ''index 1de5659..0000000'',
      ''--- a/link'', ''+++ /dev/null'',
      ''@@ -1 +0,0 @@'',
      ''-target'',
      [CHR 0x5C] @ '' No newline at end of file'',
      ''diff --git a/link b/link'', ''new file mode 100644'', ''index 0000000..d95f3ad'',
      ''--- /dev/null'', ''+++ b/link'',
      ''@@ -0,0 +1 @@'',
      ''+content'', '''']"

text \<open>The diff of scenario S1 and of the parser's tests.\<close>

definition diff_simple :: string where
  "diff_simple = join [CHR 0x0A]
     [''diff --git a/file.txt b/file.txt'', ''index abc123..def456 100644'',
      ''--- a/file.txt'', ''+++ b/file.txt'',
      ''@@ -1,3 +1,4 @@'',
      '' line 1'',
      ''+added line'',
      '' line 2'',
      '' line 3'', '''']"

text \<open>A diff whose second hunk lies before its first one in the file.\<close>

definition diff_unordered :: string where
  "diff_unordered = join [CHR 0x0A]
     [''diff --git a/f b/f'', ''--- a/f'', ''+++ b/f'',
      ''@@ -5,0 +6 @@'', ''+x'',
      ''@@ -1,0 +2 @@'', ''+y'', '''']"

text \<open>A diff that only changes the mode of a file: a file section without hunks.\<close>

definition diff_mode_only :: string where
  "diff_mode_only = join [CHR 0x0A]
     [''diff --git a/script.sh b/script.sh'', ''old mode 100644'', ''new mode 100755'', '''']"

text \<open>The hunk descriptions of a parsed diff that the round trip compares.\<close>

definition hunk_view :: "Hunk \<Rightarrow> string \<times> DiffLine list \<times> nat \<times> nat \<times> nat \<times> nat" where
  "hunk_view h = (id' h, lines h, oldStart h, oldCount h, newStart h, newCount h)"

definition file_view ::
  "FileDiff \<Rightarrow> string \<times> (string \<times> DiffLine list \<times> nat \<times> nat \<times> nat \<times> nat) list" where
  "file_view f = (newPath f, map hunk_view (hunks f))"

text \<open>
  What re-parsing a regenerated patch makes of a file: \<open>generatePatch\<close> writes the new
  path on both sides of the file header and no mode lines.
\<close>

definition regenerated :: "FileDiff \<Rightarrow> FileDiff" where
  "regenerated f = f\<lparr>oldPath := newPath f, isNew := False, isDeleted := False, isRenamed := False\<rparr>"

text \<open>
  The state of the parser inside the section of the file \<open>g\<close>, with the processed
  files \<open>fs\<close> behind it and the hunks \<open>hs\<close> opened so far: the last of them is the
  current hunk, the others are already stored in the current file.
\<close>

definition section_state :: "FileDiff list \<Rightarrow> FileDiff \<Rightarrow> Hunk list \<Rightarrow> ParseState" where
  "section_state fs g hs =
     \<lparr>files = fs, currentFile = Some (g\<lparr>hunks := butlast hs\<rparr>),
      currentHunk = (if hs = [] then None else Some (last hs)), hunkIndex = length hs\<rparr>"

definition plain_file :: "string \<Rightarrow> FileDiff" where
  "plain_file p =
     \<lparr>oldPath = p, newPath = p, isNew = False, isDeleted = False, isRenamed = False, hunks = []\<rparr>"

text \<open>A diff of two files, the first with two hunks in file order.\<close>

definition diff_two_files :: string where
  "diff_two_files = join [CHR 0x0A]
     [''diff --git a/file1.txt b/file1.txt'', ''index abc123..def456 100644'',
      ''--- a/file1.txt'', ''+++ b/file1.txt'',
      ''@@ -1,3 +1,4 @@'', '' line 1'', ''+added line'', '' line 2'', '' line 3'',
      ''@@ -10,3 +11,2 @@ function f()'', '' line 10'', ''-removed line'', '' line 12'',
      ''diff --git a/old.txt b/file2.txt'', ''similarity index 90%'',
      ''rename from old.txt'', ''rename to file2.txt'',
      ''--- a/old.txt'', ''+++ b/file2.txt'',
      ''@@ -1,2 +1,3 @@'', '' other 1'', ''+other added'', '' other 2'', '''']"

section \<open>The hunk manipulator\<close>

subsection \<open>Counting and editing\<close>

lemma count_old_filter: "count_old ls = length (filter (\<lambda>l. type l \<noteq> Add) ls)"
  by (induction ls) (auto intro: LineType.exhaust)

lemma count_new_filter: "count_new ls = length (filter (\<lambda>l. type l \<noteq> Remove) ls)"
  by (induction ls) auto

lemma lines_editHunk:
  "lines (editHunk h m) = edit_lines (or_empty (removeAdditions m)) (or_empty (keepRemovals m)) 0 (lines h)"
  by (simp add: editHunk_def Let_def)

lemma oldCount_editHunk: "oldCount (editHunk h m) = count_old (lines (editHunk h m))"
  by (simp add: editHunk_def Let_def)

lemma newCount_editHunk: "newCount (editHunk h m) = count_new (lines (editHunk h m))"
  by (simp add: editHunk_def Let_def)


lemma edit_lines_remove_only:
  "\<forall>k < length ls. n + k \<in> set S \<longrightarrow> type (ls ! k) = Add \<Longrightarrow>
   edit_lines S [] n ls = nths ls {k. n + k \<notin> set S}"
proof (induction ls arbitrary: n)
  case Nil
  then show ?case by simp
next
  case (Cons l ls)
  have step: "\<forall>k < length ls. Suc n + k \<in> set S \<longrightarrow> type (ls ! k) = Add"
    using Cons.prems by fastforce
  have hd: "n \<in> set S \<longrightarrow> type l = Add"
    using Cons.prems by fastforce
  show ?case using Cons.IH [OF step] hd by (auto simp: nths_Cons)
qed

lemma edit_lines_untouched:
  "\<forall>k < length ls. n + k \<notin> set S \<and> n + k \<notin> set K \<Longrightarrow> edit_lines S K n ls = ls"
proof (induction ls arbitrary: n)
  case Nil
  then show ?case by simp
next
  case (Cons l ls)
  have step: "\<forall>k < length ls. Suc n + k \<notin> set S \<and> Suc n + k \<notin> set K"
    using Cons.prems by fastforce
  have hd: "n \<notin> set S \<and> n \<notin> set K"
    using Cons.prems by fastforce
  show ?case using Cons.IH [OF step] hd by simp
qed

lemma edit_lines_keep_one:
  "i < length ls \<Longrightarrow> type (ls ! i) = Remove \<Longrightarrow>
   edit_lines [] [n + i] n ls = ls[i := \<lparr>type = Context, content = content (ls ! i)\<rparr>]"
proof (induction ls arbitrary: n i)
  case Nil
  then show ?case by simp
next
  case (Cons l ls)
  show ?case
  proof (cases i)
    case 0
    have "edit_lines [] [n] (Suc n) ls = ls"
      by (rule edit_lines_untouched) simp
    with 0 Cons.prems show ?thesis by simp
  next
    case (Suc j)
    have "edit_lines [] [Suc n + j] (Suc n) ls
            = ls[j := \<lparr>type = Context, content = content (ls ! j)\<rparr>]"
      using Cons.IH [of j "Suc n"] Cons.prems Suc by simp
    with Suc show ?thesis by simp
  qed
qed

lemma count_old_update:
  "i < length ls \<Longrightarrow> type (ls ! i) = Remove \<Longrightarrow>
   count_old (ls[i := \<lparr>type = Context, content = c\<rparr>]) = count_old ls"
proof (induction ls arbitrary: i)
  case Nil
  then show ?case by simp
next
  case (Cons l ls)
  then show ?case by (cases i) auto
qed

lemma count_new_update:
  "i < length ls \<Longrightarrow> type (ls ! i) = Remove \<Longrightarrow>
   count_new (ls[i := \<lparr>type = Context, content = c\<rparr>]) = count_new ls + 1"
proof (induction ls arbitrary: i)
  case Nil
  then show ?case by simp
next
  case (Cons l ls)
  then show ?case by (cases i) auto
qed

subsection \<open>Claim C2: index semantics of editHunk\<close>

text \<open>
  C2 (as amended).  For every hunk \<open>h\<close> and every list \<open>S\<close> of positions of Add lines
  of \<open>h\<close>, the lines of \<open>editHunk(h, {removeAdditions: S})\<close> are the lines of \<open>h\<close>
  with exactly the positions in \<open>S\<close> removed.  For every position \<open>i\<close> of a Remove line,
  \<open>editHunk(h, {keepRemovals: [i]})\<close> rewrites that line to Context with the same
  content and leaves every other line alone; if the counts of \<open>h\<close> agree with its
  lines, \<open>oldCount\<close> is unchanged and \<open>newCount\<close> grows by one.
\<close>

theorem editHunk_index_semantics:
  "(set S \<subseteq> {i. i < length (lines h) \<and> type (lines h ! i) = Add} \<longrightarrow>
      lines (editHunk h \<lparr>removeAdditions = Some S, keepRemovals = None\<rparr>)
        = nths (lines h) {i. i \<notin> set S})
   \<and> (i < length (lines h) \<and> type (lines h ! i) = Remove \<longrightarrow>
        lines (editHunk h \<lparr>removeAdditions = None, keepRemovals = Some [i]\<rparr>)
          = (lines h)[i := \<lparr>type = Context, content = content (lines h ! i)\<rparr>]
        \<and> (counts_consistent h \<longrightarrow>
             oldCount (editHunk h \<lparr>removeAdditions = None, keepRemovals = Some [i]\<rparr>) = oldCount h
             \<and> newCount (editHunk h \<lparr>removeAdditions = None, keepRemovals = Some [i]\<rparr>)
                 = newCount h + 1))"
proof (intro conjI impI)
  assume "set S \<subseteq> {i. i < length (lines h) \<and> type (lines h ! i) = Add}"
  then have "\<forall>k < length (lines h). 0 + k \<in> set S \<longrightarrow> type (lines h ! k) = Add"
    by auto
  from edit_lines_remove_only [OF this]
  show "lines (editHunk h \<lparr>removeAdditions = Some S, keepRemovals = None\<rparr>)
          = nths (lines h) {i. i \<notin> set S}"
    by (simp add: lines_editHunk or_empty_def)
next
  assume a: "i < length (lines h) \<and> type (lines h ! i) = Remove"
  from a edit_lines_keep_one [of i "lines h" 0]
  show l: "lines (editHunk h \<lparr>removeAdditions = None, keepRemovals = Some [i]\<rparr>)
          = (lines h)[i := \<lparr>type = Context, content = content (lines h ! i)\<rparr>]"
    by (simp add: lines_editHunk or_empty_def)
  assume c: "counts_consistent h"
  show "oldCount (editHunk h \<lparr>removeAdditions = None, keepRemovals = Some [i]\<rparr>) = oldCount h"
    using a c by (simp add: oldCount_editHunk l count_old_update counts_consistent_def
        count_old_filter [symmetric])
  show "newCount (editHunk h \<lparr>removeAdditions = None, keepRemovals = Some [i]\<rparr>) = newCount h + 1"
    using a c by (simp add: newCount_editHunk l count_new_update counts_consistent_def
        count_new_filter [symmetric])
qed

theorem editHunk_index_semantics_witness:
  "set [2] \<subseteq> {i. i < length (lines hunk_mixed) \<and> type (lines hunk_mixed ! i) = Add}
   \<and> 1 < length (lines hunk_mixed) \<and> type (lines hunk_mixed ! 1) = Remove
   \<and> counts_consistent hunk_mixed
   \<and> lines (editHunk hunk_mixed \<lparr>removeAdditions = Some [2], keepRemovals = None\<rparr>)
       = nths (lines hunk_mixed) {i. i \<notin> set [2]}
   \<and> lines (editHunk hunk_mixed \<lparr>removeAdditions = None, keepRemovals = Some [1]\<rparr>)
       = (lines hunk_mixed)[1 := \<lparr>type = Context, content = content (lines hunk_mixed ! 1)\<rparr>]
   \<and> oldCount (editHunk hunk_mixed \<lparr>removeAdditions = None, keepRemovals = Some [1]\<rparr>) = 3
   \<and> newCount (editHunk hunk_mixed \<lparr>removeAdditions = None, keepRemovals = Some [1]\<rparr>) = 5"
proof -
  have a: "set [2] \<subseteq> {i. i < length (lines hunk_mixed) \<and> type (lines hunk_mixed ! i) = Add}"
    by (simp add: hunk_mixed_def)
  have b: "1 < length (lines hunk_mixed) \<and> type (lines hunk_mixed ! 1) = Remove"
    by (simp add: hunk_mixed_def)
  have c: "counts_consistent hunk_mixed"
    by (simp add: hunk_mixed_def counts_consistent_def)
  have d: "oldCount hunk_mixed = 3" "newCount hunk_mixed = 4"
    by (simp_all add: hunk_mixed_def)
  show ?thesis
    using editHunk_index_semantics [of "[2]" hunk_mixed 1] a b c d by simp
qed

text \<open>
  The claim as written speaks of every hunk: on a hunk whose stored \<open>oldCount\<close> is not
  the count of its lines, the edit recomputes the field and so changes it.
\<close>

theorem editHunk_keepRemovals_counterexample:
  "type (lines hunk_wrong_counts ! 1) = Remove
   \<and> oldCount (editHunk hunk_wrong_counts \<lparr>removeAdditions = None, keepRemovals = Some [1]\<rparr>)
       \<noteq> oldCount hunk_wrong_counts
   \<and> newCount (editHunk hunk_wrong_counts \<lparr>removeAdditions = None, keepRemovals = Some [1]\<rparr>)
       \<noteq> newCount hunk_wrong_counts + 1"
  by (simp add: hunk_wrong_counts_def editHunk_def Let_def or_empty_def)

subsection \<open>Claim C4: the context of a gap in splitHunk\<close>

text \<open>
  C4 (evaluation at failing inputs).  The hunk of the \<open>splitCount\<close> test, split with
  \<open>minContextGap = 1\<close>: the first context line of the gap closes the first sub-hunk and
  is then repeated as the first line of the second one, so the sub-hunks together hold
  five lines against the four of the hunk, and the second sub-hunk starts at old line 11
  although its first line is old line 10.  For a hunk that ends in two context lines the
  gap line is repeated in the same way and the last context line is in no sub-hunk.
\<close>

theorem splitHunk_repeats_gap_context:
  "isSplittable hunk_two_changes 1
   \<and> map lines (splitHunk hunk_two_changes 1) =
       [[\<lparr>type = Add, content = ''first change''\<rparr>, \<lparr>type = Context, content = ''gap 1''\<rparr>],
        [\<lparr>type = Context, content = ''gap 1''\<rparr>, \<lparr>type = Context, content = ''gap 2''\<rparr>,
         \<lparr>type = Add, content = ''second change''\<rparr>]]
   \<and> concat (map lines (splitHunk hunk_two_changes 1)) \<noteq> lines hunk_two_changes
   \<and> map oldStart (splitHunk hunk_two_changes 1) = [10, 11]
   \<and> isSplittable hunk_trailing_context 1
   \<and> map lines (splitHunk hunk_trailing_context 1) =
       [[\<lparr>type = Add, content = ''first change''\<rparr>, \<lparr>type = Context, content = ''gap''\<rparr>],
        [\<lparr>type = Context, content = ''gap''\<rparr>, \<lparr>type = Add, content = ''second change''\<rparr>,
         \<lparr>type = Context, content = ''after 1''\<rparr>]]"
  by (simp add: splitHunk_def isSplittable_def hunk_two_changes_def hunk_trailing_context_def)

section \<open>The complexity hint\<close>

lemma length_indices_of_aux:
  "length (filter (\<lambda>x. type (snd x) = t) (enumerate n ls)) = length (filter (\<lambda>l. type l = t) ls)"
  by (induction ls arbitrary: n) auto

lemma length_indices_of:
  "length (indices_of t ls) = length (filter (\<lambda>l. type l = t) ls)"
  by (simp add: indices_of_def length_indices_of_aux)

text \<open>
  C6 (as amended).  The complexity hint of a hunk is 4 if and only if the hunk has more
  than one addition or more than one removal and is not splittable, 3 if and only if it
  has more than one addition or more than one removal and is splittable, and 1 in every
  other case (also for a splittable hunk with at most one addition and one removal).
\<close>

theorem complexityHint_cases:
  "complexityHint (hunkToLLMHunk h) =
     (if multiple_changes h then (if isSplittable h 1 then 3 else 4) else 1)
   \<and> (complexityHint (hunkToLLMHunk h) \<ge> 4 \<longleftrightarrow> multiple_changes h \<and> \<not> isSplittable h 1)
   \<and> (complexityHint (hunkToLLMHunk h) = 3 \<longleftrightarrow> multiple_changes h \<and> isSplittable h 1)"
  by (simp add: hunkToLLMHunk_def Let_def length_indices_of multiple_changes_def)

theorem complexityHint_cases_witness:
  "isSplittable hunk_add_remove 1 \<and> \<not> multiple_changes hunk_add_remove
   \<and> complexityHint (hunkToLLMHunk hunk_add_remove) = 1"
proof -
  have "isSplittable hunk_add_remove 1" "\<not> multiple_changes hunk_add_remove"
    by (simp_all add: isSplittable_def multiple_changes_def hunk_add_remove_def)
  then show ?thesis
    using complexityHint_cases [of hunk_add_remove] by simp
qed

text \<open>
  The claim as written fails on the splittable hunk of the tests: it has two additions,
  and its hint is 3.
\<close>

theorem complexityHint_counterexample:
  "multiple_changes hunk_two_changes \<and> complexityHint (hunkToLLMHunk hunk_two_changes) < 4"
  by (simp add: hunkToLLMHunk_def Let_def length_indices_of multiple_changes_def
      hunk_two_changes_def isSplittable_def)

section \<open>The plan executor\<close>

lemma set_indices_of_aux:
  "set (map fst (filter (\<lambda>x. type (snd x) = t) (enumerate n ls)))
     = {n + k | k. k < length ls \<and> type (ls ! k) = t}"
proof -
  have "\<exists>k. a = n + k \<and> k < length ls \<and> type (ls ! k) = type (ls ! (a - n))"
    if "n \<le> a" "a < length ls + n" for a
    using that by (intro exI [of _ "a - n"]) auto
  then show ?thesis
    by (auto simp: in_set_enumerate_eq image_iff)
qed

lemma set_indices_of:
  "set (indices_of t ls) = {k. k < length ls \<and> type (ls ! k) = t}"
  using set_indices_of_aux [of t 0 ls] by (simp add: indices_of_def)

lemma edit_lines_all_context:
  "\<forall>k < length ls. (type (ls ! k) = Add \<longrightarrow> n + k \<in> set R) \<and> (type (ls ! k) = Remove \<longrightarrow> n + k \<in> set K)
   \<Longrightarrow> edit_lines R K n ls
         = map (\<lambda>l. \<lparr>type = Context, content = content l\<rparr>) (filter (\<lambda>l. type l \<noteq> Add) ls)"
proof (induction ls arbitrary: n)
  case Nil
  then show ?case by simp
next
  case (Cons l ls)
  have step: "\<forall>k < length ls. (type (ls ! k) = Add \<longrightarrow> Suc n + k \<in> set R)
                \<and> (type (ls ! k) = Remove \<longrightarrow> Suc n + k \<in> set K)"
    using Cons.prems by fastforce
  have hd: "(type l = Add \<longrightarrow> n \<in> set R) \<and> (type l = Remove \<longrightarrow> n \<in> set K)"
    using Cons.prems by fastforce
  show ?case using Cons.IH [OF step] hd by (cases "type l") (auto intro: DiffLine.equality)
qed

lemma selection_hunk_partial_empty:
  assumes "mode sel = ModePartial" "empty_or_absent (includeAdditions sel)"
    "empty_or_absent (includeRemovals sel)"
  shows "lines (selection_hunk h sel)
           = map (\<lambda>l. \<lparr>type = Context, content = content l\<rparr>) (filter (\<lambda>l. type l \<noteq> Add) (lines h))"
proof -
  have "or_empty (includeAdditions sel) = []" "or_empty (includeRemovals sel) = []"
    using assms by (auto simp: empty_or_absent_def or_empty_def)
  then have "lines (selection_hunk h sel)
      = edit_lines (indices_of Add (lines h)) (indices_of Remove (lines h)) 0 (lines h)"
    using assms(1) by (simp add: selection_hunk_def Let_def lines_editHunk or_empty_def)
  also have "\<dots> = map (\<lambda>l. \<lparr>type = Context, content = content l\<rparr>) (filter (\<lambda>l. type l \<noteq> Add) (lines h))"
    by (rule edit_lines_all_context) (simp add: set_indices_of)
  finally show ?thesis .
qed

lemma generatePatch_single:
  "generatePatch [g] =
     join [CHR 0x0A]
       ([''diff --git a/'' @ file' g @ '' b/'' @ file' g, ''--- a/'' @ file' g,
         ''+++ b/'' @ file' g, header g] @ map line_text (lines g)) @ [CHR 0x0A]"
  by (simp add: generatePatch_def byFile_def file_sections_def hunk_sections_def)

lemma count_old_all_context:
  "count_old (map (\<lambda>l. \<lparr>type = Context, content = content l\<rparr>) ls) = length ls"
  by (induction ls) simp_all

lemma count_new_all_context:
  "count_new (map (\<lambda>l. \<lparr>type = Context, content = content l\<rparr>) ls) = length ls"
  by (induction ls) simp_all

lemma selection_hunk_partial_fields:
  assumes "mode sel = ModePartial"
  shows "file' (selection_hunk h sel) = file' h"
    and "header (selection_hunk h sel)
           = header_text (oldStart h) (count_old (lines (selection_hunk h sel)))
               (newStart h) (count_new (lines (selection_hunk h sel))) (context' h)"
  using assms
  by (simp_all add: selection_hunk_def editHunk_def recalculateHeader_def Let_def)

lemma selection_patch_partial_empty:
  assumes "mode sel = ModePartial" "empty_or_absent (includeAdditions sel)"
    "empty_or_absent (includeRemovals sel)"
  shows "generatePatch [selection_hunk h sel] =
     join [CHR 0x0A]
       ([''diff --git a/'' @ file' h @ '' b/'' @ file' h, ''--- a/'' @ file' h,
         ''+++ b/'' @ file' h,
         header_text (oldStart h) (length (filter (\<lambda>l. type l \<noteq> Add) (lines h)))
           (newStart h) (length (filter (\<lambda>l. type l \<noteq> Add) (lines h))) (context' h)]
        @ map (\<lambda>l. CHR '' '' # content l) (filter (\<lambda>l. type l \<noteq> Add) (lines h)))
     @ [CHR 0x0A]"
proof -
  note L = selection_hunk_partial_empty [OF assms, of h]
  have "map line_text (lines (selection_hunk h sel))
          = map (\<lambda>l. CHR '' '' # content l) (filter (\<lambda>l. type l \<noteq> Add) (lines h))"
    by (simp add: L line_text_def line_prefix_def comp_def)
  moreover have "header (selection_hunk h sel)
      = header_text (oldStart h) (length (filter (\<lambda>l. type l \<noteq> Add) (lines h)))
           (newStart h) (length (filter (\<lambda>l. type l \<noteq> Add) (lines h))) (context' h)"
    by (simp only: selection_hunk_partial_fields(2) [OF assms(1)] L
          count_old_all_context count_new_all_context)
  ultimately show ?thesis
    by (simp only: generatePatch_single selection_hunk_partial_fields(1) [OF assms(1)])
qed

subsection \<open>Claim C10: a partial selection that selects nothing\<close>

text \<open>
  C10.  When the loop of \<open>executeStagingPlan\<close> reaches a selection of mode Partial whose
  \<open>includeAdditions\<close> and \<open>includeRemovals\<close> are empty or absent and whose hunk id
  resolves to \<open>h\<close>, the selection is not skipped: the edited hunk consists of the lines
  of \<open>h\<close> without the Add lines, every one of them of type Context (a Remove line is
  rewritten to Context with its content); the patch generated from that hunk is the
  three file header lines for the file of \<open>h\<close>, a hunk header with the start lines of
  \<open>h\<close> and both counts equal to the number of lines kept, and every kept line behind a
  space, each of these followed by a newline; that text goes to \<open>checkPatch\<close> and then to
  \<open>applyPatchToIndex\<close>; and when both accept, the loop goes on with the hunk id appended
  to \<open>stagedHunks\<close>.
\<close>

theorem partial_empty_selection_is_staged:
  assumes "mode sel = ModePartial"
    and "empty_or_absent (includeAdditions sel)"
    and "empty_or_absent (includeRemovals sel)"
    and "getHunk diff (hunkId sel) = Some h"
  shows "(let kept = filter (\<lambda>l. type l \<noteq> Add) (lines h);
              patch = join [CHR 0x0A]
                        ([''diff --git a/'' @ file' h @ '' b/'' @ file' h,
                          ''--- a/'' @ file' h,
                          ''+++ b/'' @ file' h,
                          header_text (oldStart h) (length kept) (newStart h) (length kept)
                            (context' h)]
                         @ map (\<lambda>l. CHR '' '' # content l) kept)
                      @ [CHR 0x0A]
          in lines (selection_hunk h sel)
               = map (\<lambda>l. \<lparr>type = Context, content = content l\<rparr>) kept
           \<and> generatePatch [selection_hunk h sel] = patch
           \<and> exec_loop vcs diff (sel # rest) staged st =
               (case checkPatch vcs patch st of
                  (Some e, st1) \<Rightarrow>
                    (failed (''Patch for '' @ hunkId sel @ '' won't apply: '' @ e) staged, st1)
                | (None, st1) \<Rightarrow>
                    (case applyPatchToIndex vcs patch st1 of
                       (Some e, st2) \<Rightarrow>
                         (failed (''Failed to stage '' @ hunkId sel @ '': '' @ e) staged, st2)
                     | (None, st2) \<Rightarrow> exec_loop vcs diff rest (staged @ [hunkId sel]) st2)))"
proof -
  note P = selection_patch_partial_empty [OF assms(1-3), of h]
  note L = selection_hunk_partial_empty [OF assms(1-3), of h]
  have "mode sel \<noteq> ModeNone"
    using assms(1) by simp
  then have "exec_loop vcs diff (sel # rest) staged st =
      (case checkPatch vcs (generatePatch [selection_hunk h sel]) st of
         (Some e, st1) \<Rightarrow>
           (failed (''Patch for '' @ hunkId sel @ '' won't apply: '' @ e) staged, st1)
       | (None, st1) \<Rightarrow>
           (case applyPatchToIndex vcs (generatePatch [selection_hunk h sel]) st1 of
              (Some e, st2) \<Rightarrow>
                (failed (''Failed to stage '' @ hunkId sel @ '': '' @ e) staged, st2)
            | (None, st2) \<Rightarrow> exec_loop vcs diff rest (staged @ [hunkId sel]) st2))"
    using assms(4) by (simp add: selection_patch_def Let_def)
  then show ?thesis
    unfolding Let_def P [symmetric] using L by simp
qed

theorem partial_empty_selection_is_staged_witness:
  "mode select_nothing_partial = ModePartial
   \<and> empty_or_absent (includeAdditions select_nothing_partial)
   \<and> empty_or_absent (includeRemovals select_nothing_partial)
   \<and> getHunk diff_mixed (hunkId select_nothing_partial) = Some hunk_mixed
   \<and> lines (selection_hunk hunk_mixed select_nothing_partial)
       = [\<lparr>type = Context, content = ''line 1''\<rparr>, \<lparr>type = Context, content = ''removed line''\<rparr>,
          \<lparr>type = Context, content = ''line 2''\<rparr>]
   \<and> generatePatch [selection_hunk hunk_mixed select_nothing_partial]
       = ''diff --git a/test.txt b/test.txt'' @ [CHR 0x0A]
         @ ''--- a/test.txt'' @ [CHR 0x0A]
         @ ''+++ b/test.txt'' @ [CHR 0x0A]
         @ ''@@ -1,3 +1,3 @@'' @ [CHR 0x0A]
         @ '' line 1'' @ [CHR 0x0A]
         @ '' removed line'' @ [CHR 0x0A]
         @ '' line 2'' @ [CHR 0x0A]
   \<and> executeStagingPlan accepting_vcs diff_mixed
        (plan_of [select_nothing_partial]) []
       = (\<lparr>success = True, error = None, stagedHunks = [''test:0'']\<rparr>,
          [''diff --git a/test.txt b/test.txt'' @ [CHR 0x0A]
           @ ''--- a/test.txt'' @ [CHR 0x0A]
           @ ''+++ b/test.txt'' @ [CHR 0x0A]
           @ ''@@ -1,3 +1,3 @@'' @ [CHR 0x0A]
           @ '' line 1'' @ [CHR 0x0A]
           @ '' removed line'' @ [CHR 0x0A]
           @ '' line 2'' @ [CHR 0x0A]])"
proof -
  have a: "mode select_nothing_partial = ModePartial"
    and b: "empty_or_absent (includeAdditions select_nothing_partial)"
    and c: "empty_or_absent (includeRemovals select_nothing_partial)"
    and i: "hunkId select_nothing_partial = ''test:0''"
    by (simp_all add: select_nothing_partial_def plain_selection_def empty_or_absent_def)
  have d: "getHunk diff_mixed (hunkId select_nothing_partial) = Some hunk_mixed"
    by (simp add: i diff_mixed_def hunk_mixed_def)
  have e: "lines hunk_mixed = [\<lparr>type = Context, content = ''line 1''\<rparr>,
                \<lparr>type = Remove, content = ''removed line''\<rparr>,
                \<lparr>type = Add, content = ''added 1''\<rparr>,
                \<lparr>type = Add, content = ''added 2''\<rparr>,
                \<lparr>type = Context, content = ''line 2''\<rparr>]"
    and f: "file' hunk_mixed = ''test.txt''" "oldStart hunk_mixed = 1" "newStart hunk_mixed = 1"
      "context' hunk_mixed = None"
    by (simp_all add: hunk_mixed_def)
  have t: "header_text (Suc 0) (Suc (Suc (Suc 0))) (Suc 0) (Suc (Suc (Suc 0))) None
             = ''@@ -1,3 +1,3 @@''"
    by code_simp
  note T = partial_empty_selection_is_staged [OF a b c d, of accepting_vcs "[]" "[]" "[]",
      unfolded Let_def e f]
  have l: "lines (selection_hunk hunk_mixed select_nothing_partial)
       = [\<lparr>type = Context, content = ''line 1''\<rparr>, \<lparr>type = Context, content = ''removed line''\<rparr>,
          \<lparr>type = Context, content = ''line 2''\<rparr>]"
    using T by (simp add: t)
  have p: "generatePatch [selection_hunk hunk_mixed select_nothing_partial]
       = ''diff --git a/test.txt b/test.txt'' @ [CHR 0x0A]
         @ ''--- a/test.txt'' @ [CHR 0x0A]
         @ ''+++ b/test.txt'' @ [CHR 0x0A]
         @ ''@@ -1,3 +1,3 @@'' @ [CHR 0x0A]
         @ '' line 1'' @ [CHR 0x0A]
         @ '' removed line'' @ [CHR 0x0A]
         @ '' line 2'' @ [CHR 0x0A]"
    using T by (simp add: t)
  have "executeStagingPlan accepting_vcs diff_mixed
          (plan_of [select_nothing_partial]) []
        = exec_loop accepting_vcs diff_mixed [select_nothing_partial] [] []"
    by (simp only: executeStagingPlan_def plan_of_def StagingPlan.select_convs)
  also have "\<dots> = (\<lparr>success = True, error = None, stagedHunks = [''test:0'']\<rparr>,
          [''diff --git a/test.txt b/test.txt'' @ [CHR 0x0A]
           @ ''--- a/test.txt'' @ [CHR 0x0A]
           @ ''+++ b/test.txt'' @ [CHR 0x0A]
           @ ''@@ -1,3 +1,3 @@'' @ [CHR 0x0A]
           @ '' line 1'' @ [CHR 0x0A]
           @ '' removed line'' @ [CHR 0x0A]
           @ '' line 2'' @ [CHR 0x0A]])"
    using T by (simp add: t accepting_vcs_def i)
  finally show ?thesis
    using a b c d l p by simp
qed

subsection \<open>Claim C5: halting at the first failure\<close>

lemma exec_loop_append:
  "exec_loop vcs diff (pre @ post) staged st =
     (case exec_loop vcs diff pre staged st of
        (r, st') \<Rightarrow> if success r then exec_loop vcs diff post (stagedHunks r) st' else (r, st'))"
  by (induction pre arbitrary: staged st)
     (auto simp: failed_def Let_def split: option.splits prod.splits)

lemma exec_loop_success_staged:
  "exec_loop vcs diff sels staged st = (r, st') \<Longrightarrow> success r \<Longrightarrow>
   stagedHunks r = staged @ map hunkId (filter (\<lambda>s. mode s \<noteq> ModeNone) sels)"
  by (induction sels arbitrary: staged st)
     (auto simp: failed_def Let_def split: option.splits prod.splits if_splits)

text \<open>
  C5 (as amended).  \<open>executeStagingPlan\<close> applies the selections in plan order and halts
  at the first failure: if a selection of mode other than None has a hunk id that the
  diff does not hold, and the selections before it all went through, the result is
  \<open>success: false\<close> with the error \<open>"Hunk not found: <id>"\<close>, \<open>stagedHunks\<close> lists
  exactly the ids applied before it (those of the earlier selections of mode other than
  None, in order), and the index is in the state the earlier selections alone leave it
  in, whatever selections follow.  A selection of mode None is skipped before its id is
  looked up.
\<close>

theorem executeStagingPlan_hunk_not_found:
  assumes "executeStagingPlan vcs diff (plan\<lparr>selections := pre\<rparr>) st = (r, st')"
    and "success r"
    and "mode sel \<noteq> ModeNone"
    and "getHunk diff (hunkId sel) = None"
  shows "executeStagingPlan vcs diff (plan\<lparr>selections := pre @ sel # post\<rparr>) st
           = (\<lparr>success = False, error = Some (''Hunk not found: '' @ hunkId sel),
               stagedHunks = map hunkId (filter (\<lambda>s. mode s \<noteq> ModeNone) pre)\<rparr>, st')"
proof -
  have pre: "exec_loop vcs diff pre [] st = (r, st')"
    using assms(1) by (simp add: executeStagingPlan_def)
  have staged: "stagedHunks r = map hunkId (filter (\<lambda>s. mode s \<noteq> ModeNone) pre)"
    using exec_loop_success_staged [OF pre assms(2)] by simp
  show ?thesis
    using assms(2-4) pre staged
    by (simp add: executeStagingPlan_def exec_loop_append failed_def)
qed

theorem executeStagingPlan_hunk_not_found_witness:
  "executeStagingPlan accepting_vcs diff_mixed (plan_of [select_all]) []
     = (\<lparr>success = True, error = None, stagedHunks = [''test:0'']\<rparr>, [generatePatch [hunk_mixed]])
   \<and> mode select_missing \<noteq> ModeNone
   \<and> getHunk diff_mixed (hunkId select_missing) = None
   \<and> executeStagingPlan accepting_vcs diff_mixed
        (plan_of [select_all, select_missing, select_all]) []
       = (\<lparr>success = False, error = Some ''Hunk not found: missing:9'',
           stagedHunks = [''test:0'']\<rparr>, [generatePatch [hunk_mixed]])"
proof -
  have a: "executeStagingPlan accepting_vcs diff_mixed
             (plan_of [select_all]) []
           = (\<lparr>success = True, error = None, stagedHunks = [''test:0'']\<rparr>,
              [generatePatch [hunk_mixed]])"
    by (simp add: executeStagingPlan_def plan_of_def select_all_def plain_selection_def diff_mixed_def
        hunk_mixed_def accepting_vcs_def selection_patch_def selection_hunk_def has_lineEdits_def)
  have b: "mode select_missing \<noteq> ModeNone"
    by (simp add: select_missing_def plain_selection_def)
  have c: "getHunk diff_mixed (hunkId select_missing) = None"
    by (simp add: select_missing_def plain_selection_def diff_mixed_def hunk_mixed_def)
  have d: "success \<lparr>success = True, error = None, stagedHunks = [''test:0'']\<rparr>"
    by simp
  have a': "executeStagingPlan accepting_vcs diff_mixed ((plan_of [])\<lparr>selections := [select_all]\<rparr>) []
           = (\<lparr>success = True, error = None, stagedHunks = [''test:0'']\<rparr>,
              [generatePatch [hunk_mixed]])"
    using a by (simp add: plan_of_def)
  note T = executeStagingPlan_hunk_not_found [OF a' d b c, of "[select_all]"]
  have p: "(plan_of [])\<lparr>selections := [select_all, select_missing, select_all]\<rparr>
             = plan_of [select_all, select_missing, select_all]"
    by (simp add: plan_of_def)
  have m: "mode select_all \<noteq> ModeNone" "hunkId select_all = ''test:0''"
    "hunkId select_missing = ''missing:9''"
    by (simp_all add: select_all_def select_missing_def plain_selection_def)
  show ?thesis
    using T a b c by (simp add: p m)
qed

text \<open>
  The claim as written fails for a selection of mode None: its id is never looked up,
  so a missing id does not make the plan fail.
\<close>

theorem executeStagingPlan_skips_missing_counterexample:
  "getHunk diff_mixed (hunkId skip_missing) = None
   \<and> executeStagingPlan accepting_vcs diff_mixed
        (plan_of [skip_missing, select_all]) []
       = (\<lparr>success = True, error = None, stagedHunks = [''test:0'']\<rparr>, [generatePatch [hunk_mixed]])"
  by (simp add: executeStagingPlan_def plan_of_def skip_missing_def select_all_def plain_selection_def
      diff_mixed_def hunk_mixed_def accepting_vcs_def selection_patch_def selection_hunk_def
      has_lineEdits_def)

section \<open>Plan documents\<close>

subsection \<open>Claim C7: line edits\<close>

text \<open>
  C7 (evaluation at a failing input).  For the document of the test "should parse line
  edits" the parser registers index 1 as an included addition and records the edit
  without touching any content; the executor then stages the hunk with the original
  content of line 1: the patch it hands to the collaborator carries
  \<open>import { foo, bar, baz } from utils;\<close>, not the \<open>newContent\<close> of the edit.
\<close>

theorem executor_ignores_line_edit:
  "selections (parseStagingPlanDocument doc_line_edit None) =
     [\<lparr>hunkId = ''file.txt:0'', mode = ModePartial, includeAdditions = Some [1],
       includeRemovals = None,
       lineEdits = Some [\<lparr>lineIndex = 1, newContent = ''import { foo, bar } from utils;''\<rparr>],
       note' = None\<rparr>]
   \<and> executeStagingPlan accepting_vcs (parseDiff diff_line_edit)
         (parseStagingPlanDocument doc_line_edit None) []
       = (\<lparr>success = True, error = None, stagedHunks = [''file.txt:0'']\<rparr>,
          [join [CHR 0x0A]
             [''diff --git a/file.txt b/file.txt'', ''--- a/file.txt'', ''+++ b/file.txt'',
              ''@@ -1,2 +1,3 @@'',
              '' line 1'',
              ''+import { foo, bar, baz } from utils;'',
              '' line 2'', '''']])"
  by code_simp

subsection \<open>Claim C8: the case of checkbox characters\<close>

text \<open>
  C8 (evaluation at failing inputs).  The entire-hunk checkbox is read without regard to
  case, but a per-line checkbox \<open>[X]\<close> and a file-level checkbox \<open>[X]\<close> are not
  recognised: replacing \<open>x\<close> by \<open>X\<close> there changes the parsed plan.
\<close>

theorem line_checkbox_is_case_sensitive:
  "selections (parseStagingPlanDocument (doc_entire (CHR ''X'')) None)
     = selections (parseStagingPlanDocument (doc_entire (CHR ''x'')) None)
   \<and> selections (parseStagingPlanDocument (doc_partial (CHR ''x'')) None) =
       [\<lparr>hunkId = ''file.txt:0'', mode = ModePartial, includeAdditions = Some [1],
         includeRemovals = None, lineEdits = None, note' = None\<rparr>]
   \<and> selections (parseStagingPlanDocument (doc_partial (CHR ''X'')) None) =
       [\<lparr>hunkId = ''file.txt:0'', mode = ModeNone, includeAdditions = None,
         includeRemovals = None, lineEdits = None, note' = None\<rparr>]
   \<and> selections (parseStagingPlanDocument (doc_file_level (CHR ''x''))
                    (Some (parseDiff diff_line_edit))) =
       [\<lparr>hunkId = ''file.txt:0'', mode = ModeAll, includeAdditions = None,
         includeRemovals = None, lineEdits = None, note' = None\<rparr>]
   \<and> selections (parseStagingPlanDocument (doc_file_level (CHR ''X''))
                    (Some (parseDiff diff_line_edit))) = []"
  by code_simp

section \<open>The diff parser\<close>

subsection \<open>The file-header pattern\<close>

lemma last_filter_upt:
  "filter P [a..<b] \<noteq> [] \<Longrightarrow>
     P (last (filter P [a..<b])) \<and> a \<le> last (filter P [a..<b]) \<and> last (filter P [a..<b]) < b
     \<and> (\<forall>j. last (filter P [a..<b]) < j \<and> j < b \<longrightarrow> \<not> P j)"
proof (induction b)
  case 0
  then show ?case by simp
next
  case (Suc b)
  show ?case
  proof (cases "a \<le> b")
    case False
    with Suc.prems show ?thesis by simp
  next
    case ab: True
    show ?thesis
    proof (cases "P b")
      case True
      with ab have eq: "last (filter P [a..<Suc b]) = b" by simp
      have "\<not> (b < j \<and> j < Suc b)" for j by linarith
      then show ?thesis
        unfolding eq using True ab by blast
    next
      case False
      with ab Suc.prems have ne: "filter P [a..<b] \<noteq> []" by simp
      from False ab have eq: "filter P [a..<Suc b] = filter P [a..<b]" by simp
      define m where "m = last (filter P [a..<b])"
      from Suc.IH [OF ne] have ih: "P m" "a \<le> m" "m < b" "\<And>j. m < j \<Longrightarrow> j < b \<Longrightarrow> \<not> P j"
        unfolding m_def by blast+
      have "\<not> P j" if "m < j" "j < Suc b" for j
      proof (cases "j = b")
        case True
        with False show ?thesis by simp
      next
        case False
        with that have "j < b" by linarith
        with ih(4) that(1) show ?thesis by blast
      qed
      moreover have "m < Suc b" using ih(3) by linarith
      ultimately show ?thesis
        unfolding eq m_def [symmetric] using ih(1,2) by blast
    qed
  qed
qed

lemma filter_upt_last_eq:
  assumes "P k" "a \<le> k" "k < b" "\<And>j. k < j \<Longrightarrow> j < b \<Longrightarrow> \<not> P j"
  shows "filter P [a..<b] \<noteq> [] \<and> last (filter P [a..<b]) = k"
proof -
  have "k \<in> set (filter P [a..<b])"
    using assms(1-3) by simp
  then have ne: "filter P [a..<b] \<noteq> []"
    by (metis empty_iff list.set(1))
  define m where "m = last (filter P [a..<b])"
  from last_filter_upt [OF ne]
  have l: "P m" "m < b" "\<And>j. m < j \<Longrightarrow> j < b \<Longrightarrow> \<not> P j"
    unfolding m_def by blast+
  have "\<not> k < m" using assms(4) [of m] l(1,2) by blast
  moreover have "\<not> m < k" using l(3) [of k] assms(1,3) by blast
  ultimately have "m = k" by linarith
  then show ?thesis using ne unfolding m_def by blast
qed

lemma match_file_header_SomeD:
  assumes "match_file_header line = Some (oldP, newP)"
  shows "startsWith line ''diff --git a/''"
    and "\<not> list_ex is_line_terminator (drop 13 line)"
    and "file_header_splits (drop 13 line) \<noteq> []"
    and "oldP = take (last (file_header_splits (drop 13 line))) (drop 13 line)"
    and "newP = drop (last (file_header_splits (drop 13 line)) + 3) (drop 13 line)"
proof -
  from assms show s: "startsWith line ''diff --git a/''"
    unfolding match_file_header_def by (meson option.distinct(1))
  from assms s show t: "\<not> list_ex is_line_terminator (drop 13 line)"
    unfolding match_file_header_def Let_def by (simp split: if_splits)
  from assms s t show n: "file_header_splits (drop 13 line) \<noteq> []"
    unfolding match_file_header_def Let_def by (simp split: list.splits)
  from assms s t n show "oldP = take (last (file_header_splits (drop 13 line))) (drop 13 line)"
    and "newP = drop (last (file_header_splits (drop 13 line)) + 3) (drop 13 line)"
    unfolding match_file_header_def Let_def by (simp_all split: list.splits)
qed

lemma path_ok_iff:
  "path_ok p \<longleftrightarrow> p \<noteq> [] \<and> \<not> list_ex is_line_terminator p
     \<and> (\<forall>i. i + 3 < length p \<longrightarrow> take 3 (drop i p) \<noteq> '' b/'')"
proof -
  have "(\<forall>i \<in> set [0..<length p]. \<not> (take 3 (drop i p) = '' b/'' \<and> i + 3 < length p))
          \<longleftrightarrow> (\<forall>i. i + 3 < length p \<longrightarrow> take 3 (drop i p) \<noteq> '' b/'')"
    by auto
  then show ?thesis
    unfolding path_ok_def filter_empty_conv by blast
qed

lemma match_file_header_path_ok:
  assumes "match_file_header line = Some (oldP, newP)"
  shows "path_ok newP"
proof -
  define r where "r = drop 13 line"
  define Q where "Q = (\<lambda>i. take 3 (drop i r) = '' b/'' \<and> i + 3 < length r)"
  define k where "k = last (filter Q [1..<length r])"
  note d = match_file_header_SomeD [OF assms]
  have nt: "\<not> list_ex is_line_terminator r"
    using d(2) by (simp add: r_def)
  have ne: "filter Q [1..<length r] \<noteq> []"
    using d(3) by (simp add: r_def Q_def file_header_splits_def)
  have newP: "newP = drop (k + 3) r"
    using d(5) by (simp add: r_def Q_def k_def file_header_splits_def)
  from last_filter_upt [OF ne]
  have k: "Q k" "\<And>j. k < j \<Longrightarrow> j < length r \<Longrightarrow> \<not> Q j"
    unfolding k_def by blast+
  have 1: "newP \<noteq> []" using k(1) by (simp add: newP Q_def)
  have 2: "\<not> list_ex is_line_terminator newP"
    using nt by (auto simp: newP list_ex_iff dest: in_set_dropD)
  have 3: "take 3 (drop i newP) \<noteq> '' b/''" if "i + 3 < length newP" for i
  proof
    assume a: "take 3 (drop i newP) = '' b/''"
    have "drop i newP = drop (k + 3 + i) r"
      by (simp add: newP add.commute)
    with a that have "Q (k + 3 + i)"
      by (simp add: Q_def newP)
    moreover have "k < k + 3 + i" by linarith
    moreover have "k + 3 + i < length r" using that by (simp add: newP)
    ultimately show False using k(2) by blast
  qed
  show ?thesis
    unfolding path_ok_iff using 1 2 3 by blast
qed

lemma startsWith_append: "startsWith (p @ s) p"
  by (simp add: startsWith_def)

lemma no_terminator_b: "\<not> list_ex is_line_terminator '' b/''"
  by (simp add: is_line_terminator_def)

lemma match_file_header_regenerated:
  assumes "path_ok p"
  shows "match_file_header (''diff --git a/'' @ p @ '' b/'' @ p) = Some (p, p)"
proof -
  define r where "r = p @ '' b/'' @ p"
  define Q where "Q = (\<lambda>i. take 3 (drop i r) = '' b/'' \<and> i + 3 < length r)"
  from assms have p: "p \<noteq> []" "\<not> list_ex is_line_terminator p"
    "\<And>i. i + 3 < length p \<Longrightarrow> take 3 (drop i p) \<noteq> '' b/''"
    unfolding path_ok_iff by blast+
  have len: "length r = length p + 3 + length p" by (simp add: r_def)
  have pos: "0 < length p" using p(1) by simp
  have Qp: "Q (length p)"
    using pos by (simp add: Q_def r_def)
  have after: "\<not> Q j" if "length p < j" "j < length r" for j
  proof
    assume q: "Q j"
    define e where "e = j - length p"
    have j: "j = length p + e" "0 < e" using that(1) by (simp_all add: e_def)
    have dj: "drop j r = drop e ('' b/'' @ p)"
      by (simp add: j r_def)
    consider "e = 1" | "e = 2" | "3 \<le> e" using j(2) by linarith
    then show False
    proof cases
      case 1
      with q dj show False by (simp add: Q_def)
    next
      case 2
      with q dj show False by (simp add: Q_def)
    next
      case 3
      define i where "i = e - 3"
      have e: "e = Suc (Suc (Suc i))" using 3 by (simp add: i_def)
      have "drop j r = drop i p" using dj by (simp add: e)
      moreover have "i + 3 < length p" using q len by (simp add: Q_def j e)
      ultimately show False using q p(3) [of i] by (simp add: Q_def)
    qed
  qed
  have "1 \<le> length p" using pos by linarith
  moreover have "length p < length r" by (simp add: len)
  ultimately have l: "filter Q [1..<length r] \<noteq> [] \<and> last (filter Q [1..<length r]) = length p"
    using filter_upt_last_eq [of Q "length p" 1 "length r"] Qp after by blast
  have nt: "\<not> list_ex is_line_terminator r"
    using p(2) by (simp add: r_def is_line_terminator_def)
  have dr: "drop 13 (''diff --git a/'' @ p @ '' b/'' @ p) = r"
    by (simp add: r_def)
  have sw: "startsWith (''diff --git a/'' @ p @ '' b/'' @ p) ''diff --git a/''"
    by (rule startsWith_append)
  have fs: "file_header_splits r \<noteq> []" "last (file_header_splits r) = length p"
    using l unfolding file_header_splits_def Q_def by blast+
  then obtain x xs where x: "file_header_splits r = x # xs"
    by (cases "file_header_splits r") auto
  with fs(2) have xs: "file_header_splits r = x # xs" "last (x # xs) = length p"
    by simp_all
  have "take (length p) r = p" "drop (length p + 3) r = p"
    by (simp_all add: r_def)
  then show ?thesis
    unfolding match_file_header_def Let_def dr using sw nt xs by simp
qed

lemma split_nl_no_newline: "list_all (\<lambda>l. CHR 0x0A \<notin> set l) (split_nl s)"
  by (induction s) (auto split: list.splits)

lemma meta_loop_newPath [simp]: "newPath (fst (meta_loop f ls)) = newPath f"
  by (induction ls arbitrary: f) auto

lemma meta_loop_hunks [simp]: "hunks (fst (meta_loop f ls)) = hunks f"
  by (induction ls arbitrary: f) auto

lemma meta_loop_suffix: "set (snd (meta_loop f ls)) \<subseteq> set ls"
  by (induction ls arbitrary: f) auto

lemma push_hunk_newPath [simp]: "newPath (push_hunk f h) = newPath f"
  by (simp add: push_hunk_def split: option.splits)

lemma push_hunk_None [simp]: "push_hunk f None = f"
  by (simp add: push_hunk_def)

lemma hunks_push_hunk_Some [simp]: "hunks (push_hunk f (Some h)) = hunks f @ [h]"
  by (simp add: push_hunk_def)

lemma wf_file_snoc:
  "wf_file f \<Longrightarrow> wf_hunk (newPath f) (length (hunks f)) h \<Longrightarrow> wf_file (push_hunk f (Some h))"
  by (simp add: wf_file_def list_all2_appendI)

lemma wf_file_pushD:
  "wf_file (push_hunk f (Some h)) \<Longrightarrow>
     wf_file (f\<lparr>hunks := hunks f\<rparr>) \<and> wf_hunk (newPath f) (length (hunks f)) h"
  by (auto simp: wf_file_def list_all2_append)

lemma parse_inv_open_file:
  assumes "parse_inv st" "match_file_header line = Some (oldP, newP)"
  shows "parse_inv (fst (open_file st oldP newP rest))"
proof -
  have p: "path_ok newP" using assms(2) by (rule match_file_header_path_ok)
  obtain f rest' where m: "meta_loop \<lparr>oldPath = oldP, newPath = newP, isNew = False,
      isDeleted = False, isRenamed = (oldP \<noteq> newP), hunks = []\<rparr> rest = (f, rest')"
    by (cases "meta_loop \<lparr>oldPath = oldP, newPath = newP, isNew = False,
      isDeleted = False, isRenamed = (oldP \<noteq> newP), hunks = []\<rparr> rest") 
  have fp: "newPath f = newP" "hunks f = []"
    using meta_loop_newPath [of _ rest] meta_loop_hunks [of _ rest] m
    by (metis FileDiff.select_convs(2) fst_conv, metis FileDiff.select_convs(6) fst_conv)
  have wf: "wf_file f" using p fp by (simp add: wf_file_def)
  show ?thesis
    using assms(1) wf fp
    by (auto simp: open_file_def m parse_inv_def split: option.splits)
qed


lemma wf_hunk_new_hunk:
  assumes "match_hunk_header line = Some m" "CHR 0x0A \<notin> set line"
  shows "wf_hunk (newPath cf) i (new_hunk cf i line m)"
  using assms by (simp add: wf_hunk_def new_hunk_def parseHunkHeader_def)

lemma parse_inv_open_hunk:
  assumes "parse_inv st" "currentFile st = Some cf" "match_hunk_header line = Some m"
    "CHR 0x0A \<notin> set line"
  shows "parse_inv (open_hunk st cf line m)"
proof -
  define g where "g = push_hunk cf (currentHunk st)"
  have g: "wf_file g" "hunkIndex st = length (hunks g)" "list_all wf_file (files st)"
    using assms(1,2) by (simp_all add: parse_inv_def g_def)
  have "wf_hunk (newPath g) (length (hunks g)) (new_hunk cf (hunkIndex st) line m)"
    using wf_hunk_new_hunk [OF assms(3,4), of cf "hunkIndex st"] g(2) by (simp add: g_def)
  then have "wf_file (push_hunk g (Some (new_hunk cf (hunkIndex st) line m)))"
    using g(1) by (rule wf_file_snoc [rotated])
  then show ?thesis
    using g(2,3) by (simp add: parse_inv_def open_hunk_def g_def [symmetric])
qed

lemma wf_hunk_add_line:
  "wf_hunk p i h \<Longrightarrow> CHR 0x0A \<notin> set (content l) \<Longrightarrow> wf_hunk p i (h\<lparr>lines := lines h @ [l]\<rparr>)"
  by (simp add: wf_hunk_def)

lemma parse_inv_add_line:
  assumes "parse_inv st" "currentHunk st = Some h" "CHR 0x0A \<notin> set (content l)"
  shows "parse_inv (st\<lparr>currentHunk := Some (h\<lparr>lines := lines h @ [l]\<rparr>)\<rparr>)"
proof -
  from assms(1,2) obtain cf where cf: "currentFile st = Some cf"
    by (cases "currentFile st") (auto simp: parse_inv_def)
  have w: "wf_file (push_hunk cf (Some h))" "hunkIndex st = length (hunks (push_hunk cf (Some h)))"
    "list_all wf_file (files st)"
    using assms(1,2) cf by (simp_all add: parse_inv_def)
  have "wf_file (push_hunk cf (Some (h\<lparr>lines := lines h @ [l]\<rparr>)))"
    using w(1) assms(3) by (auto simp: wf_file_def list_all2_append intro: wf_hunk_add_line)
  then show ?thesis
    using w(2,3) cf by (simp add: parse_inv_def)
qed

lemma parse_inv_body_line:
  assumes "parse_inv st" "CHR 0x0A \<notin> set line"
  shows "parse_inv (body_line st line)"
proof (cases "currentHunk st")
  case None
  with assms(1) show ?thesis by (simp add: body_line_def)
next
  case (Some h)
  show ?thesis
  proof (cases line)
    case Nil
    with Some assms(1) show ?thesis by (simp add: body_line_def)
  next
    case (Cons c cont)
    have "parse_inv (st\<lparr>currentHunk := Some (h\<lparr>lines := lines h @ [\<lparr>type = t, content = cont\<rparr>]\<rparr>)\<rparr>)" for t
      using assms Some Cons by (intro parse_inv_add_line) simp_all
    with Some Cons assms(1) show ?thesis by (simp add: body_line_def)
  qed
qed

lemma parse_inv_parse_loop:
  "parse_inv st \<Longrightarrow> list_all (\<lambda>l. CHR 0x0A \<notin> set l) ls \<Longrightarrow> parse_inv (parse_loop st ls)"
proof (induction st ls rule: parse_loop.induct)
  case (1 st)
  then show ?case by simp
next
  case (2 st line rest)
  have nl: "CHR 0x0A \<notin> set line" and rest: "list_all (\<lambda>l. CHR 0x0A \<notin> set l) rest"
    using "2.prems"(2) by simp_all
  show ?case
  proof (cases "match_file_header line")
    case (Some p)
    obtain oldP newP where p: "p = (oldP, newP)" by (cases p)
    have i: "parse_inv (fst (open_file st oldP newP rest))"
      using parse_inv_open_file [OF "2.prems"(1), of line oldP newP rest] Some p by simp
    have "set (snd (open_file st oldP newP rest)) \<subseteq> set rest"
      using meta_loop_suffix by (simp add: open_file_def split: prod.splits) (metis snd_conv)
    with rest have r: "list_all (\<lambda>l. CHR 0x0A \<notin> set l) (snd (open_file st oldP newP rest))"
      by (auto simp: list_all_iff)
    show ?thesis
      using "2.IH" Some p i r
      by (simp add: parse_loop.simps(2))
  next
    case None
    show ?thesis
    proof (cases "match_hunk_header line")
      case hNone: None
      have "parse_inv (body_line st line)"
        using "2.prems"(1) nl by (rule parse_inv_body_line)
      then show ?thesis
        using "2.IH" None hNone rest
        by (simp add: parse_loop.simps(2))
    next
      case (Some m)
      show ?thesis
      proof (cases "currentFile st")
        case cNone: None
        have "parse_inv (body_line st line)"
          using "2.prems"(1) nl by (rule parse_inv_body_line)
        then show ?thesis
          using "2.IH" None Some cNone rest
          by (simp add: parse_loop.simps(2))
      next
        case (Some cf)
        have "parse_inv (open_hunk st cf line m)"
          using "2.prems"(1) Some \<open>match_hunk_header line = Some m\<close> nl
          by (rule parse_inv_open_hunk)
        then show ?thesis
          using "2.IH" None \<open>match_hunk_header line = Some m\<close> Some rest
          by (simp add: parse_loop.simps(2))
      qed
    qed
  qed
qed

lemma parse_inv_initial: "parse_inv initial_state"
  by (simp add: parse_inv_def initial_state_def)

lemma parseDiff_wf: "list_all wf_file (parseDiff s)"
proof -
  have "parse_inv (parse_loop initial_state (split_nl s))"
    using parse_inv_initial split_nl_no_newline by (rule parse_inv_parse_loop)
  then show ?thesis
    by (auto simp: parseDiff_def finish_def parse_inv_def split: option.splits)
qed

subsection \<open>Claim C1: count consistency\<close>

lemma counts_consistent_editHunk: "counts_consistent (editHunk h m)"
  by (simp add: counts_consistent_def editHunk_def Let_def count_old_filter count_new_filter)

lemma counts_consistent_split_build:
  "list_all counts_consistent (split_build h oldLine newLine i groups)"
  by (induction groups arbitrary: oldLine newLine i)
     (simp_all add: counts_consistent_def count_old_filter count_new_filter)

lemma filter_type_lengths:
  "length (filter (\<lambda>l. type l = Context) ls) + length (filter (\<lambda>l. type l = Remove) ls)
     = length (filter (\<lambda>l. type l \<noteq> Add) ls)"
  "length (filter (\<lambda>l. type l = Context) ls) + length (filter (\<lambda>l. type l = Add) ls)
     = length (filter (\<lambda>l. type l \<noteq> Remove) ls)"
proof (induction ls)
  case Nil
  case 1 show ?case by simp
  case 2 show ?case by simp
next
  case (Cons l ls)
  case 1 show ?case using Cons.IH(1) by (cases "type l") simp_all
  case 2 show ?case using Cons.IH(2) by (cases "type l") simp_all
qed

lemma validateHunk_None_iff: "validateHunk h = None \<longleftrightarrow> counts_consistent h"
  unfolding validateHunk_def Let_def counts_consistent_def filter_type_lengths
  by auto

lemma parseDiff_header_counts:
  "list_all (\<lambda>x. parseHunkHeader (header x)
                = Some \<lparr>h_oldStart = oldStart x, h_oldCount = oldCount x,
                        h_newStart = newStart x, h_newCount = newCount x,
                        h_context = context' x\<rparr>)
     (getAllHunks (parseDiff s))"
proof -
  have "parseHunkHeader (header x)
                = Some \<lparr>h_oldStart = oldStart x, h_oldCount = oldCount x,
                        h_newStart = newStart x, h_newCount = newCount x,
                        h_context = context' x\<rparr>"
    if f: "f \<in> set (parseDiff s)" and x: "x \<in> set (hunks f)" for f x
  proof -
    have "wf_file f" using parseDiff_wf [of s] f by (simp add: list_all_iff)
    then have "list_all2 (wf_hunk (newPath f)) [0..<length (hunks f)] (hunks f)"
      by (simp add: wf_file_def)
    with x obtain i where "wf_hunk (newPath f) i x"
      by (auto simp: list_all2_conv_all_nth in_set_conv_nth)
    then show ?thesis by (simp add: wf_hunk_def)
  qed
  then show ?thesis
    by (auto simp: list_all_iff getAllHunks_def)
qed

text \<open>
  C1 (as amended).  Every hunk returned by \<open>editHunk\<close> and every sub-hunk that
  \<open>splitHunk\<close> builds for a splittable hunk has \<open>oldCount\<close> equal to the number of
  its lines that are not Add and \<open>newCount\<close> equal to the number of its lines that are
  not Remove; \<open>splitHunk\<close> returns a hunk that is not splittable as it is.  A hunk
  produced by \<open>parseDiff\<close> carries the numbers written in its header line (1 for an
  omitted count), whatever its body holds; it is count consistent exactly when
  \<open>validateHunk\<close> accepts it.
\<close>

theorem count_consistency:
  "counts_consistent (editHunk h m)
   \<and> (isSplittable h g \<longrightarrow> list_all counts_consistent (splitHunk h g))
   \<and> (\<not> isSplittable h g \<longrightarrow> splitHunk h g = [h])
   \<and> list_all (\<lambda>x. parseHunkHeader (header x)
                      = Some \<lparr>h_oldStart = oldStart x, h_oldCount = oldCount x,
                              h_newStart = newStart x, h_newCount = newCount x,
                              h_context = context' x\<rparr>)
        (getAllHunks (parseDiff s))
   \<and> list_all (\<lambda>x. counts_consistent x \<longleftrightarrow> validateHunk x = None) (getAllHunks (parseDiff s))"
proof (intro conjI impI)
  show "counts_consistent (editHunk h m)"
    by (rule counts_consistent_editHunk)
  show "list_all counts_consistent (splitHunk h g)" if "isSplittable h g"
    using that by (simp add: splitHunk_def counts_consistent_split_build)
  show "splitHunk h g = [h]" if "\<not> isSplittable h g"
    using that by (simp add: splitHunk_def)
  show "list_all (\<lambda>x. parseHunkHeader (header x)
                      = Some \<lparr>h_oldStart = oldStart x, h_oldCount = oldCount x,
                              h_newStart = newStart x, h_newCount = newCount x,
                              h_context = context' x\<rparr>)
        (getAllHunks (parseDiff s))"
    by (rule parseDiff_header_counts)
  show "list_all (\<lambda>x. counts_consistent x \<longleftrightarrow> validateHunk x = None) (getAllHunks (parseDiff s))"
    by (simp add: validateHunk_None_iff list_all_iff)
qed

theorem count_consistency_witness:
  "isSplittable hunk_two_changes 1
   \<and> list_all counts_consistent (splitHunk hunk_two_changes 1)
   \<and> \<not> isSplittable hunk_mixed 1
   \<and> splitHunk hunk_mixed 1 = [hunk_mixed]
   \<and> map (\<lambda>x. (oldCount x, newCount x, parseHunkHeader (header x))) (getAllHunks (parseDiff diff_simple))
       = [(3, 4, Some \<lparr>h_oldStart = 1, h_oldCount = 3, h_newStart = 1, h_newCount = 4,
                        h_context = None\<rparr>)]
   \<and> map validateHunk (getAllHunks (parseDiff diff_simple)) = [None]"
proof -
  have a: "isSplittable hunk_two_changes 1"
    by (simp add: isSplittable_def hunk_two_changes_def)
  have b: "\<not> isSplittable hunk_mixed 1"
    by (simp add: isSplittable_def hunk_mixed_def)
  have c: "map (\<lambda>x. (oldCount x, newCount x, header x)) (getAllHunks (parseDiff diff_simple))
             = [(3, 4, ''@@ -1,3 +1,4 @@'')]"
    by code_simp
  have d: "map validateHunk (getAllHunks (parseDiff diff_simple)) = [None]"
    by code_simp
  from c obtain x where x: "getAllHunks (parseDiff diff_simple) = [x]" "oldCount x = 3"
    "newCount x = 4"
    by auto
  note T1 = count_consistency [where h = hunk_two_changes and g = 1 and s = diff_simple]
  note T2 = count_consistency [where h = hunk_mixed and g = 1 and s = diff_simple]
  have e: "list_all counts_consistent (splitHunk hunk_two_changes 1)"
    using T1 a by blast
  have f: "splitHunk hunk_mixed 1 = [hunk_mixed]"
    using T2 b by blast
  have "parseHunkHeader (header x)
          = Some \<lparr>h_oldStart = oldStart x, h_oldCount = 3, h_newStart = newStart x,
                  h_newCount = 4, h_context = context' x\<rparr>"
    using T1 x by simp
  moreover have "parseHunkHeader ''@@ -1,3 +1,4 @@''
          = Some \<lparr>h_oldStart = 1, h_oldCount = 3, h_newStart = 1, h_newCount = 4, h_context = None\<rparr>"
    by code_simp
  moreover have "header x = ''@@ -1,3 +1,4 @@''" using c x by simp
  ultimately have g: "map (\<lambda>x. (oldCount x, newCount x, parseHunkHeader (header x)))
       (getAllHunks (parseDiff diff_simple))
       = [(3, 4, Some \<lparr>h_oldStart = 1, h_oldCount = 3, h_newStart = 1, h_newCount = 4,
                        h_context = None\<rparr>)]"
    using x by simp
  show ?thesis
    using a b d e f g by blast
qed

text \<open>
  The claim as written fails for the parser: the hunk of a diff that was cut off after
  two body lines keeps the counts 3 and 4 of its header.
\<close>

theorem parseDiff_counts_counterexample:
  "map (\<lambda>x. (oldCount x, newCount x,
              length (filter (\<lambda>l. type l \<noteq> Add) (lines x)),
              length (filter (\<lambda>l. type l \<noteq> Remove) (lines x))))
     (getAllHunks (parseDiff diff_truncated)) = [(3, 4, 1, 2)]
   \<and> map validateHunk (getAllHunks (parseDiff diff_truncated))
       = [Some ''Old count mismatch: header says 3, actual is 1'']"
  by code_simp

subsection \<open>Claim C9: hunk ids\<close>

text \<open>
  The id of a hunk determines its file path and its index, so the ids of one parse are
  pairwise distinct as long as no two file sections name the same new path.
\<close>

lemma digit_val_digit_char: "d < 10 \<Longrightarrow> digit_val (digit_char d) = d"
  by (simp add: digit_val_def digit_char_def)

lemma parseInt_snoc: "parseInt (ds @ [c]) = 10 * parseInt ds + digit_val c"
  by (simp add: parseInt_def)

lemma parseInt_show_nat: "parseInt (show_nat n) = n"
proof (induction n rule: show_nat.induct)
  case (1 n)
  show ?case
  proof (cases "n < 10")
    case True
    then have "show_nat n = [digit_char n]" by (simp add: show_nat.simps)
    then show ?thesis using True by (simp add: parseInt_def digit_val_digit_char)
  next
    case False
    then have "show_nat n = show_nat (n div 10) @ [digit_char (n mod 10)]"
      by (subst show_nat.simps) simp
    then have "parseInt (show_nat n) = 10 * parseInt (show_nat (n div 10)) + n mod 10"
      by (simp add: parseInt_snoc digit_val_digit_char)
    also have "\<dots> = 10 * (n div 10) + n mod 10"
      using "1.IH" False by simp
    finally show ?thesis by simp
  qed
qed

lemma show_nat_inj: "show_nat m = show_nat n \<Longrightarrow> m = n"
  by (metis parseInt_show_nat)

lemma of_char_digit_char: "d < 10 \<Longrightarrow> (of_char (digit_char d) :: nat) = 48 + d"
  by (simp add: digit_char_def)

lemma digit_char_not_colon:
  assumes "d < 10"
  shows "digit_char d \<noteq> CHR '':''"
proof
  assume "digit_char d = CHR '':''"
  then have "(of_char (digit_char d) :: nat) = of_char (CHR '':'')" by (rule arg_cong)
  then have "48 + d = (58::nat)" using of_char_digit_char [OF assms] by simp
  with assms show False by linarith
qed

lemma show_nat_no_colon: "CHR '':'' \<notin> set (show_nat n)"
proof (induction n rule: show_nat.induct)
  case (1 n)
  show ?case
  proof (cases "n < 10")
    case True
    then have "show_nat n = [digit_char n]" by (simp add: show_nat.simps)
    then show ?thesis using digit_char_not_colon [OF True] by auto
  next
    case False
    then have "show_nat n = show_nat (n div 10) @ [digit_char (n mod 10)]"
      by (subst show_nat.simps) simp
    moreover have "digit_char (n mod 10) \<noteq> CHR '':''"
      by (rule digit_char_not_colon) simp
    ultimately show ?thesis using "1.IH" False by auto
  qed
qed

lemma split_at_first:
  "x \<notin> set a \<Longrightarrow> x \<notin> set b \<Longrightarrow> a @ x # u = b @ x # v \<Longrightarrow> a = b \<and> u = v"
proof (induction a arbitrary: b)
  case Nil
  then show ?case by (cases b) auto
next
  case (Cons c a)
  then show ?case by (cases b) auto
qed

lemma hunk_id_eq:
  assumes "p @ '':'' @ show_nat i = q @ '':'' @ show_nat j"
  shows "p = q \<and> i = j"
proof -
  have "rev (show_nat i) @ CHR '':'' # rev p = rev (show_nat j) @ CHR '':'' # rev q"
    using arg_cong [OF assms, of rev] by simp
  moreover have "CHR '':'' \<notin> set (rev (show_nat i))" "CHR '':'' \<notin> set (rev (show_nat j))"
    using show_nat_no_colon by simp_all
  ultimately have "rev (show_nat i) = rev (show_nat j) \<and> rev p = rev q"
    by (intro split_at_first [of "CHR '':''"])
  then show ?thesis using show_nat_inj by simp
qed

lemma wf_file_ids:
  assumes "wf_file f"
  shows "map id' (hunks f) = map (\<lambda>i. newPath f @ '':'' @ show_nat i) [0..<length (hunks f)]"
proof (rule nth_equalityI)
  show "length (map id' (hunks f)) = length (map (\<lambda>i. newPath f @ '':'' @ show_nat i) [0..<length (hunks f)])"
    by simp
  fix k assume "k < length (map id' (hunks f))"
  then have k: "k < length (hunks f)" by simp
  then have "wf_hunk (newPath f) k (hunks f ! k)"
    using assms by (simp add: wf_file_def list_all2_conv_all_nth)
  then show "map id' (hunks f) ! k = map (\<lambda>i. newPath f @ '':'' @ show_nat i) [0..<length (hunks f)] ! k"
    using k by (simp add: wf_hunk_def)
qed

lemma wf_file_ids_distinct: "wf_file f \<Longrightarrow> distinct (map id' (hunks f))"
  unfolding wf_file_ids
  by (auto simp: distinct_map inj_on_def dest: show_nat_inj)

lemma wf_file_ids_path:
  "wf_file f \<Longrightarrow> x \<in> set (map id' (hunks f)) \<Longrightarrow> \<exists>i. x = newPath f @ '':'' @ show_nat i"
  unfolding wf_file_ids by auto

lemma wf_files_ids_distinct:
  "list_all wf_file d \<Longrightarrow> distinct (map newPath d) \<Longrightarrow> distinct (map id' (getAllHunks d))"
proof (induction d)
  case Nil
  then show ?case by (simp add: getAllHunks_def)
next
  case (Cons f d)
  have wf: "wf_file f" and wfd: "list_all wf_file d" using Cons.prems(1) by simp_all
  have ih: "distinct (map id' (getAllHunks d))"
    using Cons.IH wfd Cons.prems(2) by simp
  have "x \<notin> set (map id' (getAllHunks d))" if x: "x \<in> set (map id' (hunks f))" for x
  proof
    assume "x \<in> set (map id' (getAllHunks d))"
    then obtain g where g: "g \<in> set d" "x \<in> set (map id' (hunks g))"
      by (auto simp: getAllHunks_def)
    then have "wf_file g" using wfd by (simp add: list_all_iff)
    then obtain j where j: "x = newPath g @ '':'' @ show_nat j"
      using wf_file_ids_path g(2) by blast
    obtain i where i: "x = newPath f @ '':'' @ show_nat i"
      using wf_file_ids_path [OF wf x] by blast
    from i j have "newPath f = newPath g" using hunk_id_eq by blast
    with g(1) Cons.prems(2) show False by auto
  qed
  then show ?case
    using ih wf_file_ids_distinct [OF wf] by (auto simp: getAllHunks_def)
qed

lemma parseDiff_ids_distinct:
  "distinct (map newPath (parseDiff s)) \<Longrightarrow> distinct (map id' (getAllHunks (parseDiff s)))"
  using parseDiff_wf by (rule wf_files_ids_distinct)

text \<open>
  C9 (evaluation at a failing input).  For the diff that git prints for a change of file
  type, two sections with the same path, the parser numbers the hunks of each section
  from 0: both hunks get the id \<open>link:0\<close>, and \<open>getHunk\<close> can only reach the first.
\<close>

theorem parseDiff_repeats_hunk_id:
  "map id' (getAllHunks (parseDiff diff_typechange)) = [''link:0'', ''link:0'']
   \<and> \<not> distinct (map id' (getAllHunks (parseDiff diff_typechange)))
   \<and> map_option lines (getHunk (parseDiff diff_typechange) ''link:0'')
       = Some [\<lparr>type = Remove, content = ''target''\<rparr>]"
  by code_simp

subsection \<open>Re-parsing generated patch text\<close>

lemma startsWith_Nil [simp]: "startsWith s [] = True"
  by (simp add: startsWith_def)

lemma startsWith_Nil_Cons [simp]: "startsWith [] (b # p) = False"
  by (simp add: startsWith_def)

lemma startsWith_Cons_Cons [simp]: "startsWith (a # s) (b # p) = (a = b \<and> startsWith s p)"
  by (auto simp: startsWith_def)

lemma match_file_header_Nil [simp]: "match_file_header [] = None"
  by (simp add: match_file_header_def)

lemma match_file_header_Cons_None: "c \<noteq> CHR ''d'' \<Longrightarrow> match_file_header (c # cs) = None"
  by (simp add: match_file_header_def)

lemma match_hunk_header_Nil [simp]: "match_hunk_header [] = None"
  by (simp add: match_hunk_header_def)

lemma match_hunk_header_Cons_None: "c \<noteq> CHR ''@'' \<Longrightarrow> match_hunk_header (c # cs) = None"
  by (simp add: match_hunk_header_def)

lemma match_hunk_header_SomeD:
  assumes "match_hunk_header line = Some m"
  shows "\<exists>cs. line = CHR ''@'' # cs"
proof (cases line)
  case Nil
  with assms show ?thesis by simp
next
  case (Cons c cs)
  show ?thesis
  proof (cases "c = CHR ''@''")
    case True
    with Cons show ?thesis by simp
  next
    case False
    with Cons assms show ?thesis by (simp add: match_hunk_header_Cons_None)
  qed
qed

lemma line_text_Cons: "line_text l = line_prefix (type l) # content l"
  by (simp add: line_text_def)

lemma line_prefix_neq [simp]: "line_prefix t \<noteq> CHR ''d''" "line_prefix t \<noteq> CHR ''@''"
  "line_prefix t \<noteq> CHR 0x0A"
  by (simp_all add: line_prefix_def)

lemma body_line_line_text:
  "currentHunk st = Some h \<Longrightarrow>
   body_line st (line_text l) = st\<lparr>currentHunk := Some (h\<lparr>lines := lines h @ [l]\<rparr>)\<rparr>"
  by (cases "type l") (simp_all add: body_line_def line_text_def line_prefix_def)

lemma parse_loop_body_step:
  "currentHunk st = Some h \<Longrightarrow>
   parse_loop st (line_text l # rest)
     = parse_loop (st\<lparr>currentHunk := Some (h\<lparr>lines := lines h @ [l]\<rparr>)\<rparr>) rest"
  by (simp add: parse_loop.simps(2) line_text_Cons match_file_header_Cons_None
      match_hunk_header_Cons_None body_line_line_text [unfolded line_text_Cons])

lemma parse_loop_body:
  "currentHunk st = Some h \<Longrightarrow>
   parse_loop st (map line_text ls @ rest)
     = parse_loop (st\<lparr>currentHunk := Some (h\<lparr>lines := lines h @ ls\<rparr>)\<rparr>) rest"
proof (induction ls arbitrary: st h)
  case Nil
  then have "st\<lparr>currentHunk := Some (h\<lparr>lines := lines h @ []\<rparr>)\<rparr> = st"
    by (cases st) simp
  then show ?case by simp
next
  case (Cons l ls)
  have "parse_loop st (map line_text (l # ls) @ rest)
          = parse_loop (st\<lparr>currentHunk := Some (h\<lparr>lines := lines h @ [l]\<rparr>)\<rparr>)
              (map line_text ls @ rest)"
    using Cons.prems by (simp add: parse_loop_body_step)
  also have "\<dots> = parse_loop (st\<lparr>currentHunk := Some (h\<lparr>lines := lines h @ l # ls\<rparr>)\<rparr>) rest"
    by (subst Cons.IH [of _ "h\<lparr>lines := lines h @ [l]\<rparr>"]) simp_all
  finally show ?case .
qed

lemma new_hunk_wf:
  assumes "wf_hunk (newPath cf) i h" "match_hunk_header (header h) = Some m"
  shows "new_hunk cf i (header h) m = h\<lparr>lines := []\<rparr>"
  using assms by (simp add: wf_hunk_def new_hunk_def parseHunkHeader_def)

lemma wf_hunk_header_match:
  "wf_hunk p i h \<Longrightarrow> \<exists>m. match_hunk_header (header h) = Some m"
  by (auto simp: wf_hunk_def parseHunkHeader_def split: option.splits)

lemma parse_loop_hunk:
  assumes "currentFile st = Some cf" "wf_hunk (newPath cf) (hunkIndex st) h"
  shows "parse_loop st (hunk_sections h @ rest)
           = parse_loop (st\<lparr>currentFile := Some (push_hunk cf (currentHunk st)),
                             currentHunk := Some h, hunkIndex := hunkIndex st + 1\<rparr>) rest"
proof -
  obtain m where m: "match_hunk_header (header h) = Some m"
    using wf_hunk_header_match [OF assms(2)] by blast
  then obtain cs where cs: "header h = CHR ''@'' # cs"
    using match_hunk_header_SomeD by blast
  have nf: "match_file_header (header h) = None"
    by (simp add: cs match_file_header_Cons_None)
  define st1 where "st1 = open_hunk st cf (header h) m"
  have c1: "currentHunk st1 = Some (h\<lparr>lines := []\<rparr>)"
    using new_hunk_wf [OF assms(2) m] by (simp add: st1_def open_hunk_def)
  have "parse_loop st (hunk_sections h @ rest) = parse_loop st1 (map line_text (lines h) @ rest)"
    using nf m assms(1) by (simp add: hunk_sections_def parse_loop.simps(2) st1_def)
  also have "\<dots> = parse_loop (st1\<lparr>currentHunk := Some ((h\<lparr>lines := []\<rparr>)\<lparr>lines := lines (h\<lparr>lines := []\<rparr>) @ lines h\<rparr>)\<rparr>) rest"
    using c1 by (rule parse_loop_body)
  also have "st1\<lparr>currentHunk := Some ((h\<lparr>lines := []\<rparr>)\<lparr>lines := lines (h\<lparr>lines := []\<rparr>) @ lines h\<rparr>)\<rparr>
      = st\<lparr>currentFile := Some (push_hunk cf (currentHunk st)),
                             currentHunk := Some h, hunkIndex := hunkIndex st + 1\<rparr>"
    by (simp add: st1_def open_hunk_def)
  finally show ?thesis .
qed

lemma push_hunk_section_state:
  "push_hunk (g\<lparr>hunks := butlast hs\<rparr>) (if hs = [] then None else Some (last hs)) = g\<lparr>hunks := hs\<rparr>"
  by (simp add: push_hunk_def)

lemma finish_section_state: "finish (section_state fs g hs) = fs @ [g\<lparr>hunks := hs\<rparr>]"
  by (simp add: finish_def section_state_def push_hunk_section_state)

lemma parse_loop_section_hunk:
  assumes "wf_hunk (newPath g) (length hs) h"
  shows "parse_loop (section_state fs g hs) (hunk_sections h @ rest)
           = parse_loop (section_state fs g (hs @ [h])) rest"
proof -
  have 1: "currentFile (section_state fs g hs) = Some (g\<lparr>hunks := butlast hs\<rparr>)"
    by (simp add: section_state_def)
  have 2: "wf_hunk (newPath (g\<lparr>hunks := butlast hs\<rparr>)) (hunkIndex (section_state fs g hs)) h"
    using assms by (simp add: section_state_def)
  have "(section_state fs g hs)\<lparr>currentFile := Some (push_hunk (g\<lparr>hunks := butlast hs\<rparr>)
              (currentHunk (section_state fs g hs))),
            currentHunk := Some h, hunkIndex := hunkIndex (section_state fs g hs) + 1\<rparr>
        = section_state fs g (hs @ [h])"
    by (simp add: section_state_def push_hunk_def)
  with parse_loop_hunk [OF 1 2, of rest] show ?thesis by simp
qed

lemma parse_loop_section_hunks:
  "list_all2 (wf_hunk (newPath g)) [length hs..<length hs + length new] new \<Longrightarrow>
   parse_loop (section_state fs g hs) (concat (map hunk_sections new) @ rest)
     = parse_loop (section_state fs g (hs @ new)) rest"
proof (induction new arbitrary: hs)
  case Nil
  then show ?case by simp
next
  case (Cons h new)
  have up: "[length hs..<length hs + length (h # new)]
              = length hs # [length (hs @ [h])..<length (hs @ [h]) + length new]"
    by (simp add: upt_rec)
  from Cons.prems have h: "wf_hunk (newPath g) (length hs) h"
    and new: "list_all2 (wf_hunk (newPath g)) [length (hs @ [h])..<length (hs @ [h]) + length new] new"
    unfolding up by simp_all
  have "parse_loop (section_state fs g hs) (concat (map hunk_sections (h # new)) @ rest)
          = parse_loop (section_state fs g hs) (hunk_sections h @ (concat (map hunk_sections new) @ rest))"
    by simp
  also have "\<dots> = parse_loop (section_state fs g (hs @ [h])) (concat (map hunk_sections new) @ rest)"
    using h by (rule parse_loop_section_hunk)
  also have "\<dots> = parse_loop (section_state fs g ((hs @ [h]) @ new)) rest"
    using new by (rule Cons.IH)
  finally show ?case by simp
qed

lemma meta_loop_generated:
  "meta_loop f ((''--- a/'' @ p) # (''+++ b/'' @ p) # (CHR ''@'' # cs) # rest)
     = (f, (CHR ''@'' # cs) # rest)"
  by (simp add: is_plain_meta_def)

lemma open_file_generated:
  assumes "currentFile st = None \<longrightarrow> currentHunk st = None"
  shows "open_file st p p ((''--- a/'' @ p) # (''+++ b/'' @ p) # (CHR ''@'' # cs) # rest)
           = (section_state (finish st) (plain_file p) [], (CHR ''@'' # cs) # rest)"
  unfolding open_file_def meta_loop_generated using assms
  by (auto simp: section_state_def plain_file_def finish_def split: option.splits)

lemma parse_loop_file_header:
  assumes "path_ok p" "currentFile st = None \<longrightarrow> currentHunk st = None"
  shows "parse_loop st ((''diff --git a/'' @ p @ '' b/'' @ p) # (''--- a/'' @ p) # (''+++ b/'' @ p)
                         # (CHR ''@'' # cs) # rest)
           = parse_loop (section_state (finish st) (plain_file p) []) ((CHR ''@'' # cs) # rest)"
  by (subst parse_loop.simps(2))
     (simp only: match_file_header_regenerated [OF assms(1)] open_file_generated [OF assms(2)]
        option.case prod.case fst_conv snd_conv)

lemma regenerated_eq: "regenerated f = (plain_file (newPath f))\<lparr>hunks := hunks f\<rparr>"
  by (cases f) (simp add: regenerated_def plain_file_def)

lemma wf_file_hunks_upt:
  "wf_file f \<Longrightarrow> list_all2 (wf_hunk (newPath f)) [length [] ..<length [] + length (hunks f)] (hunks f)"
  by (simp add: wf_file_def)

lemma parse_loop_file_section:
  assumes "wf_file f" "hunks f \<noteq> []" "currentFile st = None \<longrightarrow> currentHunk st = None"
  shows "parse_loop st
           ([''diff --git a/'' @ newPath f @ '' b/'' @ newPath f, ''--- a/'' @ newPath f,
             ''+++ b/'' @ newPath f] @ concat (map hunk_sections (hunks f)) @ rest)
         = parse_loop (section_state (finish st) (plain_file (newPath f)) (hunks f)) rest"
proof -
  obtain h hs where hs: "hunks f = h # hs" using assms(2) by (cases "hunks f") auto
  have p: "path_ok (newPath f)" using assms(1) by (simp add: wf_file_def)
  have "wf_hunk (newPath f) 0 h"
    using assms(1) hs by (simp add: wf_file_def upt_rec)
  then obtain m where "match_hunk_header (header h) = Some m"
    using wf_hunk_header_match by blast
  then obtain cs where cs: "header h = CHR ''@'' # cs"
    using match_hunk_header_SomeD by blast
  define tl where "tl = map line_text (lines h) @ concat (map hunk_sections hs) @ rest"
  have c: "concat (map hunk_sections (hunks f)) @ rest = (CHR ''@'' # cs) # tl"
    by (simp add: hs hunk_sections_def cs tl_def)
  have "parse_loop st
           ([''diff --git a/'' @ newPath f @ '' b/'' @ newPath f, ''--- a/'' @ newPath f,
             ''+++ b/'' @ newPath f] @ concat (map hunk_sections (hunks f)) @ rest)
        = parse_loop st ((''diff --git a/'' @ newPath f @ '' b/'' @ newPath f)
             # (''--- a/'' @ newPath f) # (''+++ b/'' @ newPath f) # (CHR ''@'' # cs) # tl)"
    by (simp only: c append_Cons append_Nil)
  also have "\<dots> = parse_loop (section_state (finish st) (plain_file (newPath f)) [])
                      ((CHR ''@'' # cs) # tl)"
    using p assms(3) by (rule parse_loop_file_header)
  also have "\<dots> = parse_loop (section_state (finish st) (plain_file (newPath f)) [])
                      (concat (map hunk_sections (hunks f)) @ rest)"
    by (simp only: c)
  also have "\<dots> = parse_loop (section_state (finish st) (plain_file (newPath f)) ([] @ hunks f)) rest"
    using wf_file_hunks_upt [OF assms(1)]
    by (intro parse_loop_section_hunks) (simp add: plain_file_def)
  finally show ?thesis by simp
qed

lemma parse_loop_empty_line: "parse_loop st [[]] = st"
  by (simp add: parse_loop.simps(2) body_line_def split: option.splits)

lemma file_sections_sorted:
  "sorted (map oldStart hs) \<Longrightarrow>
   file_sections (p, hs)
     = [''diff --git a/'' @ p @ '' b/'' @ p, ''--- a/'' @ p, ''+++ b/'' @ p]
       @ concat (map hunk_sections hs)"
  by (simp add: file_sections_def sort_key_id_if_sorted)

lemma parse_loop_files:
  assumes "list_all wf_file fs"
    and "list_all (\<lambda>f. hunks f \<noteq> [] \<and> sorted (map oldStart (hunks f))) fs"
    and "currentFile st = None \<longrightarrow> currentHunk st = None"
  shows "finish (parse_loop st (concat (map (\<lambda>f. file_sections (newPath f, hunks f)) fs) @ [[]]))
           = finish st @ map regenerated fs"
  using assms
proof (induction fs arbitrary: st)
  case Nil
  then show ?case by (simp add: parse_loop_empty_line)
next
  case (Cons f fs)
  define st' where "st' = section_state (finish st) (plain_file (newPath f)) (hunks f)"
  define rest where "rest = concat (map (\<lambda>f. file_sections (newPath f, hunks f)) fs) @ [[]]"
  have wf: "wf_file f" and ne: "hunks f \<noteq> []" and so: "sorted (map oldStart (hunks f))"
    using Cons.prems by simp_all
  have "concat (map (\<lambda>f. file_sections (newPath f, hunks f)) (f # fs)) @ [[]]
          = [''diff --git a/'' @ newPath f @ '' b/'' @ newPath f, ''--- a/'' @ newPath f,
             ''+++ b/'' @ newPath f] @ concat (map hunk_sections (hunks f)) @ rest"
    by (simp add: file_sections_sorted [OF so] rest_def del: append_Cons)
  then have "parse_loop st (concat (map (\<lambda>f. file_sections (newPath f, hunks f)) (f # fs)) @ [[]])
          = parse_loop st' rest"
    using parse_loop_file_section [OF wf ne Cons.prems(3), of rest] by (simp only: st'_def)
  moreover have "finish (parse_loop st' rest) = finish st' @ map regenerated fs"
    unfolding rest_def using Cons.prems(1,2)
    by (intro Cons.IH) (simp_all add: st'_def section_state_def)
  moreover have "finish st' = finish st @ [regenerated f]"
    by (simp add: st'_def finish_section_state regenerated_eq)
  ultimately show ?case by simp
qed

subsection \<open>Grouping by file and splitting into lines\<close>

lemma byFile_add_new:
  "file' h \<notin> fst ` set m \<Longrightarrow> byFile_add h m = m @ [(file' h, [h])]"
  by (induction m) auto

lemma byFile_add_last:
  "file' h \<notin> fst ` set m \<Longrightarrow> byFile_add h (m @ [(file' h, hs)]) = m @ [(file' h, hs @ [h])]"
  by (induction m) auto

lemma foldl_byFile_same:
  "p \<notin> fst ` set m \<Longrightarrow> list_all (\<lambda>h. file' h = p) hs \<Longrightarrow>
   foldl (\<lambda>m h. byFile_add h m) (m @ [(p, hs0)]) hs = m @ [(p, hs0 @ hs)]"
proof (induction hs arbitrary: hs0)
  case Nil
  then show ?case by simp
next
  case (Cons h hs)
  from Cons.prems have h: "file' h = p" and hs: "list_all (\<lambda>h. file' h = p) hs" by simp_all
  have "byFile_add h (m @ [(p, hs0)]) = m @ [(p, hs0 @ [h])]"
    using byFile_add_last [of h m hs0] Cons.prems(1) h by simp
  then show ?case
    using Cons.IH [OF Cons.prems(1) hs, of "hs0 @ [h]"] by simp
qed

lemma foldl_byFile_file:
  assumes "p \<notin> fst ` set m" "list_all (\<lambda>h. file' h = p) hs" "hs \<noteq> []"
  shows "foldl (\<lambda>m h. byFile_add h m) m hs = m @ [(p, hs)]"
proof -
  obtain h hs' where hs: "hs = h # hs'" using assms(3) by (cases hs) auto
  with assms(2) have h: "file' h = p" and hs': "list_all (\<lambda>h. file' h = p) hs'" by simp_all
  have "byFile_add h m = m @ [(p, [h])]"
    using byFile_add_new [of h m] assms(1) h by simp
  then show ?thesis
    using foldl_byFile_same [OF assms(1) hs', of "[h]"] by (simp add: hs)
qed

lemma foldl_byFile_files:
  assumes "distinct (map newPath fs)"
    and "list_all (\<lambda>f. hunks f \<noteq> [] \<and> list_all (\<lambda>h. file' h = newPath f) (hunks f)) fs"
    and "fst ` set m \<inter> newPath ` set fs = {}"
  shows "foldl (\<lambda>m h. byFile_add h m) m (concat (map hunks fs))
           = m @ map (\<lambda>f. (newPath f, hunks f)) fs"
  using assms
proof (induction fs arbitrary: m)
  case Nil
  then show ?case by simp
next
  case (Cons f fs)
  have 1: "newPath f \<notin> fst ` set m" using Cons.prems(3) by auto
  have 2: "list_all (\<lambda>h. file' h = newPath f) (hunks f)" "hunks f \<noteq> []"
    using Cons.prems(2) by simp_all
  have step: "foldl (\<lambda>m h. byFile_add h m) m (hunks f) = m @ [(newPath f, hunks f)]"
    using 1 2 by (rule foldl_byFile_file)
  have 3: "fst ` set (m @ [(newPath f, hunks f)]) \<inter> newPath ` set fs = {}"
    using Cons.prems(1,3) by auto
  have "foldl (\<lambda>m h. byFile_add h m) (m @ [(newPath f, hunks f)]) (concat (map hunks fs))
          = (m @ [(newPath f, hunks f)]) @ map (\<lambda>f. (newPath f, hunks f)) fs"
    using Cons.prems(1,2) 3 by (intro Cons.IH) simp_all
  then show ?case by (simp add: step)
qed

lemma wf_file_hunks_file: "wf_file f \<Longrightarrow> list_all (\<lambda>h. file' h = newPath f) (hunks f)"
  by (auto simp: wf_file_def list_all_iff list_all2_conv_all_nth in_set_conv_nth wf_hunk_def)

lemma byFile_getAllHunks:
  assumes "list_all wf_file d" "distinct (map newPath d)" "list_all (\<lambda>f. hunks f \<noteq> []) d"
  shows "byFile (getAllHunks d) = map (\<lambda>f. (newPath f, hunks f)) d"
proof -
  have "list_all (\<lambda>f. hunks f \<noteq> [] \<and> list_all (\<lambda>h. file' h = newPath f) (hunks f)) d"
    using assms(1,3) wf_file_hunks_file by (auto simp: list_all_iff)
  with foldl_byFile_files [OF assms(2), of "[]"] show ?thesis
    by (simp add: byFile_def getAllHunks_def)
qed

lemma split_nl_line: "CHR 0x0A \<notin> set x \<Longrightarrow> split_nl (x @ CHR 0x0A # s) = x # split_nl s"
  by (induction x) auto

lemma split_nl_join:
  "list_all (\<lambda>x. CHR 0x0A \<notin> set x) xs \<Longrightarrow> xs \<noteq> [] \<Longrightarrow>
   split_nl (join [CHR 0x0A] xs @ [CHR 0x0A]) = xs @ [[]]"
proof (induction xs)
  case Nil
  then show ?case by simp
next
  case (Cons x xs)
  have x: "CHR 0x0A \<notin> set x" using Cons.prems(1) by simp
  show ?case
  proof (cases xs)
    case Nil
    then show ?thesis using split_nl_line [OF x, of "[]"] by simp
  next
    case (Cons y ys)
    have "split_nl (join [CHR 0x0A] (x # y # ys) @ [CHR 0x0A])
            = split_nl (x @ CHR 0x0A # (join [CHR 0x0A] (y # ys) @ [CHR 0x0A]))"
      by simp
    also have "\<dots> = x # split_nl (join [CHR 0x0A] (y # ys) @ [CHR 0x0A])"
      using x by (rule split_nl_line)
    also have "split_nl (join [CHR 0x0A] (y # ys) @ [CHR 0x0A]) = (y # ys) @ [[]]"
      using Cons.IH Cons.prems(1) Cons by simp
    finally show ?thesis using Cons by simp
  qed
qed

lemma path_ok_no_newline: "path_ok p \<Longrightarrow> CHR 0x0A \<notin> set p"
  by (auto simp: path_ok_def list_ex_iff is_line_terminator_def)

lemma wf_hunk_sections_no_newline:
  "wf_hunk p i h \<Longrightarrow> list_all (\<lambda>x. CHR 0x0A \<notin> set x) (hunk_sections h)"
  by (auto simp: wf_hunk_def hunk_sections_def list_all_iff line_text_def line_prefix_def
      split: if_splits)

lemma wf_file_sections_no_newline:
  assumes "wf_file f" "set hs \<subseteq> set (hunks f)"
  shows "list_all (\<lambda>x. CHR 0x0A \<notin> set x) (file_sections (newPath f, hs))"
proof -
  have p: "CHR 0x0A \<notin> set (newPath f)"
    using assms(1) by (simp add: wf_file_def path_ok_no_newline)
  have "list_all (\<lambda>x. CHR 0x0A \<notin> set x) (hunk_sections h)" if "h \<in> set (hunks f)" for h
  proof -
    from that assms(1) obtain i where "wf_hunk (newPath f) i h"
      by (auto simp: wf_file_def list_all2_conv_all_nth in_set_conv_nth)
    then show ?thesis by (rule wf_hunk_sections_no_newline)
  qed
  then have "list_all (\<lambda>x. CHR 0x0A \<notin> set x) (concat (map hunk_sections (sort_key oldStart hs)))"
    using assms(2) by (auto simp: list_all_iff)
  then show ?thesis
    using p by (simp add: file_sections_def)
qed

lemma parse_generated:
  assumes "list_all wf_file d" "distinct (map newPath d)"
    and "list_all (\<lambda>f. hunks f \<noteq> [] \<and> sorted (map oldStart (hunks f))) d"
  shows "parseDiff (generatePatch (getAllHunks d)) = map regenerated d"
proof (cases d)
  case Nil
  then show ?thesis
    by (simp add: getAllHunks_def generatePatch_def parseDiff_def parse_loop_empty_line
        finish_def initial_state_def)
next
  case (Cons f fs)
  define secs where "secs = concat (map (\<lambda>f. file_sections (newPath f, hunks f)) d)"
  have ne: "list_all (\<lambda>f. hunks f \<noteq> []) d"
    using assms(3) by (simp add: list_all_iff)
  have nh: "getAllHunks d \<noteq> []"
    using ne Cons by (simp add: getAllHunks_def)
  have by_file: "byFile (getAllHunks d) = map (\<lambda>f. (newPath f, hunks f)) d"
    using assms(1,2) ne by (rule byFile_getAllHunks)
  have gen: "generatePatch (getAllHunks d) = join [CHR 0x0A] secs @ [CHR 0x0A]"
    using nh by (simp add: generatePatch_def by_file secs_def comp_def)
  have "list_all (\<lambda>x. CHR 0x0A \<notin> set x) (file_sections (newPath g, hunks g))" if "g \<in> set d" for g
    using assms(1) that wf_file_sections_no_newline [of g "hunks g"] by (simp add: list_all_iff)
  then have nn: "list_all (\<lambda>x. CHR 0x0A \<notin> set x) secs"
    by (auto simp: secs_def list_all_iff)
  have "file_sections (newPath f, hunks f) \<noteq> []"
    by (simp add: file_sections_def)
  then have sne: "secs \<noteq> []"
    by (simp add: secs_def Cons)
  have "split_nl (generatePatch (getAllHunks d)) = secs @ [[]]"
    unfolding gen using nn sne by (rule split_nl_join)
  then have "parseDiff (generatePatch (getAllHunks d))
               = finish (parse_loop initial_state (secs @ [[]]))"
    by (simp add: parseDiff_def)
  also have "\<dots> = finish initial_state @ map regenerated d"
    unfolding secs_def using assms(1,3)
    by (rule parse_loop_files) (simp add: initial_state_def)
  finally show ?thesis
    by (simp add: finish_def initial_state_def)
qed

lemma file_view_regenerated: "file_view (regenerated f) = file_view f"
  by (simp add: file_view_def regenerated_def)

lemma getAllHunks_filter: "getAllHunks (filter (\<lambda>f. hunks f \<noteq> []) d) = getAllHunks d"
  by (induction d) (simp_all add: getAllHunks_def)

subsection \<open>Claim C3: the round trip\<close>

text \<open>
  C3 (as amended).  Let \<open>d\<close> be the result of \<open>parseDiff\<close> on any text, with pairwise
  distinct new paths of its files and, within each file, hunks in non-decreasing order
  of \<open>oldStart\<close>.  Parsing \<open>generatePatch(d.getAllHunks())\<close> yields the files of \<open>d\<close>
  that have at least one hunk, in the same order and with the same hunks: the same ids,
  line sequences and numeric fields (and header and context).  Of a file only the new
  path survives: the old path becomes the new path, the new/deleted/renamed flags are
  cleared, and a file without hunks is not in the result.
\<close>

theorem roundtrip:
  assumes "distinct (map newPath (parseDiff s))"
    and "list_all (\<lambda>f. sorted (map oldStart (hunks f))) (parseDiff s)"
  shows "parseDiff (generatePatch (getAllHunks (parseDiff s)))
           = map regenerated (filter (\<lambda>f. hunks f \<noteq> []) (parseDiff s))
         \<and> map file_view (parseDiff (generatePatch (getAllHunks (parseDiff s))))
             = map file_view (filter (\<lambda>f. hunks f \<noteq> []) (parseDiff s))"
proof -
  define d where "d = filter (\<lambda>f. hunks f \<noteq> []) (parseDiff s)"
  have 1: "list_all wf_file d"
    using parseDiff_wf [of s] by (simp add: d_def list_all_iff)
  have 2: "distinct (map newPath d)"
    using assms(1) by (simp add: d_def distinct_map_filter)
  have 3: "list_all (\<lambda>f. hunks f \<noteq> [] \<and> sorted (map oldStart (hunks f))) d"
    using assms(2) by (simp add: d_def list_all_iff)
  have "parseDiff (generatePatch (getAllHunks d)) = map regenerated d"
    using 1 2 3 by (rule parse_generated)
  then have "parseDiff (generatePatch (getAllHunks (parseDiff s))) = map regenerated d"
    by (simp add: d_def getAllHunks_filter)
  then show ?thesis
    by (simp add: file_view_regenerated comp_def d_def)
qed

theorem roundtrip_witness:
  "distinct (map newPath (parseDiff diff_two_files))
   \<and> list_all (\<lambda>f. sorted (map oldStart (hunks f))) (parseDiff diff_two_files)
   \<and> map (\<lambda>f. (newPath f, map id' (hunks f))) (parseDiff diff_two_files)
       = [(''file1.txt'', [''file1.txt:0'', ''file1.txt:1'']), (''file2.txt'', [''file2.txt:0''])]
   \<and> map file_view (parseDiff (generatePatch (getAllHunks (parseDiff diff_two_files))))
       = map file_view (parseDiff diff_two_files)"
proof -
  have a: "distinct (map newPath (parseDiff diff_two_files))"
    by code_simp
  have b: "list_all (\<lambda>f. sorted (map oldStart (hunks f))) (parseDiff diff_two_files)"
    by code_simp
  have c: "map (\<lambda>f. (newPath f, map id' (hunks f))) (parseDiff diff_two_files)
       = [(''file1.txt'', [''file1.txt:0'', ''file1.txt:1'']), (''file2.txt'', [''file2.txt:0''])]"
    by code_simp
  have d: "filter (\<lambda>f. hunks f \<noteq> []) (parseDiff diff_two_files) = parseDiff diff_two_files"
    by code_simp
  note T = roundtrip [OF a b, unfolded d]
  show ?thesis
    using T a b c by blast
qed

text \<open>
  The claim as written fails where \<open>generatePatch\<close> reorders or drops: the hunks of a
  file are emitted sorted by \<open>oldStart\<close>, so for a diff that lists a later hunk first
  the ids name other hunks after the round trip; and a file section without hunks (a
  mode change) leaves no trace in the patch.
\<close>

theorem roundtrip_counterexample:
  "map (\<lambda>h. (id' h, oldStart h, lines h)) (getAllHunks (parseDiff diff_unordered))
     = [(''f:0'', 5, [\<lparr>type = Add, content = ''x''\<rparr>]), (''f:1'', 1, [\<lparr>type = Add, content = ''y''\<rparr>])]
   \<and> map (\<lambda>h. (id' h, oldStart h, lines h))
         (getAllHunks (parseDiff (generatePatch (getAllHunks (parseDiff diff_unordered)))))
     = [(''f:0'', 1, [\<lparr>type = Add, content = ''y''\<rparr>]), (''f:1'', 5, [\<lparr>type = Add, content = ''x''\<rparr>])]
   \<and> map file_view (parseDiff (generatePatch (getAllHunks (parseDiff diff_unordered))))
       \<noteq> map file_view (parseDiff diff_unordered)
   \<and> map file_view (parseDiff diff_mode_only) = [(''script.sh'', [])]
   \<and> map file_view (parseDiff (generatePatch (getAllHunks (parseDiff diff_mode_only)))) = []"
  by code_simp

end
